theory Spec2Isabelle
  imports Complex_Main
begin

section \<open>Smart File Sorter: the worker back end\<close>

text \<open>
  A shallow embedding of the back end of \<^verbatim>\<open>smart_file_sorter.py\<close>: the classifier
  \<^verbatim>\<open>detect_group\<close>, the destination resolver \<^verbatim>\<open>unique_dest\<close> with \<^verbatim>\<open>safe_copy\<close> and
  \<^verbatim>\<open>safe_move\<close>, and the three workers \<^verbatim>\<open>sort_worker\<close>, \<^verbatim>\<open>duplicate_scan_worker\<close> and
  \<^verbatim>\<open>face_grouping_worker\<close>.

  Conventions of the model.
  \<^item> A \<^verbatim>\<open>pathlib.Path\<close> is the list of its components from the root; \<^verbatim>\<open>p / s\<close> appends one
    component.
  \<^item> What the operating system and the libraries answer (directory listings, \<^verbatim>\<open>stat\<close>,
    file contents, \<^verbatim>\<open>mimetypes\<close>, \<^verbatim>\<open>hashlib\<close>, PIL, \<^verbatim>\<open>face_recognition\<close>, which calls
    raise) is a record of functions, the environment \<open>E\<close>. A call that raises answers
    \<open>Inl msg\<close> with the message of the exception where the code can use the message, and
    \<open>None\<close> where the code discards the exception.
  \<^item> The set of paths that exist is explicit state (a finite list of paths), updated by
    \<^verbatim>\<open>mkdir\<close>, \<^verbatim>\<open>copy2\<close> and \<^verbatim>\<open>move\<close>.
  \<^item> The callbacks \<^verbatim>\<open>progress_cb\<close>, \<^verbatim>\<open>log_cb\<close>, \<^verbatim>\<open>result_cb\<close> and the instrumented calls
    (\<^verbatim>\<open>sha256\<close>, \<^verbatim>\<open>copy2\<close>, \<^verbatim>\<open>move\<close>, \<^verbatim>\<open>face_encodings_for_image\<close>) are events; a worker
    returns the list of its events in order. An exception that leaves the worker is the
    last event \<open>Raise\<close>.
  \<^item> \<^verbatim>\<open>stop_event.is_set()\<close> is polled once per loop iteration; \<open>stop i\<close> is the answer
    to the poll of iteration \<open>i\<close> (counted from 0).
  \<^item> Python floats (progress fractions, modification times, face distances) are the
    real numbers they denote; \<^verbatim>\<open>idx / total\<close> is the exact quotient, and the literal
    \<^verbatim>\<open>0.6\<close> is the double it denotes, which is not the number 6/10.
\<close>

subsection \<open>Paths\<close>

type_synonym path = "string list"

type_synonym bytes = "char list"

type_synonym exn = string

type_synonym fs = "path list"

definition path_join :: "path \<Rightarrow> string \<Rightarrow> path" where
  "path_join p s = p @ [s]"

definition name :: "path \<Rightarrow> string" where
  "name p = (if p = [] then [] else last p)"

definition parent :: "path \<Rightarrow> path" where
  "parent p = butlast p"

text \<open>
  \<^verbatim>\<open>Path.suffix\<close> and \<^verbatim>\<open>Path.stem\<close> of pathlib: with \<^verbatim>\<open>i = name.rfind('.')\<close>, the suffix is
  \<^verbatim>\<open>name[i:]\<close> and the stem \<^verbatim>\<open>name[:i]\<close> when \<^verbatim>\<open>0 < i < len(name) - 1\<close>; otherwise the suffix
  is empty and the stem is the whole name. \<open>dot_index\<close> is that \<open>i\<close> when the condition
  holds.
\<close>

definition dot_index :: "string \<Rightarrow> nat option" where
  "dot_index nm =
     (let r = takeWhile (\<lambda>c. c \<noteq> CHR ''.'') (rev nm)
      in if r \<noteq> [] \<and> length r + 1 < length nm then Some (length nm - 1 - length r) else None)"

definition suffix :: "path \<Rightarrow> string" where
  "suffix p = (case dot_index (name p) of None \<Rightarrow> [] | Some i \<Rightarrow> drop i (name p))"

definition stem :: "path \<Rightarrow> string" where
  "stem p = (case dot_index (name p) of None \<Rightarrow> name p | Some i \<Rightarrow> take i (name p))"

definition startswith :: "string \<Rightarrow> string \<Rightarrow> bool" where
  "startswith s k = (take (length k) s = k)"

text \<open>The decimal rendering of a natural number, as an f-string writes it.\<close>

fun digit_char :: "nat \<Rightarrow> char" where
  "digit_char d = (''0123456789'' ! d)"

fun str_nat :: "nat \<Rightarrow> string" where
  "str_nat n = (if n < 10 then [digit_char n] else str_nat (n div 10) @ [digit_char (n mod 10)])"

declare str_nat.simps [simp del]

fun digit_val :: "char \<Rightarrow> nat" where
  "digit_val c = length (takeWhile (\<lambda>d. d \<noteq> c) ''0123456789'')"

definition nat_of_str :: "string \<Rightarrow> nat" where
  "nat_of_str s = foldl (\<lambda>a c. 10 * a + digit_val c) 0 s"

subsection \<open>The environment\<close>

record stat_result =
  st_size :: nat
  st_mtime :: real

record 'v env =
  lower :: "string \<Rightarrow> string"
  guess_type :: "path \<Rightarrow> string option"
  is_dir :: "path \<Rightarrow> bool"
  is_file :: "path \<Rightarrow> bool"
  iterdir :: "path \<Rightarrow> exn + path list"
  rglob :: "path \<Rightarrow> exn + path list"
  stat :: "path \<Rightarrow> exn + stat_result"
  read_bytes :: "path \<Rightarrow> bytes option"
  hexdigest :: "bytes \<Rightarrow> string"
  PIL_AVAILABLE :: bool
  FACE_AVAILABLE :: bool
  exif_datetime :: "path \<Rightarrow> (nat \<times> nat) option"
  mkdir_fails :: "path \<Rightarrow> exn option"
  copy2_fails :: "path \<Rightarrow> path \<Rightarrow> exn option"
  move_fails :: "path \<Rightarrow> path \<Rightarrow> exn option"
  face_encodings :: "path \<Rightarrow> 'v list"
  face_dist :: "'v \<Rightarrow> 'v \<Rightarrow> real"
  set_order :: "path set \<Rightarrow> path list"

text \<open>
  \<^item> \<open>lower\<close> is \<^verbatim>\<open>str.lower\<close>; \<open>guess_type E p\<close> is \<^verbatim>\<open>mimetypes.guess_type(str(p))[0]\<close>.
  \<^item> \<open>iterdir\<close> and \<open>rglob\<close> are \<^verbatim>\<open>base.iterdir()\<close> and \<^verbatim>\<open>base.rglob("*")\<close>, \<open>Inl msg\<close> when
    they raise.
  \<^item> \<open>stat\<close> is \<^verbatim>\<open>Path.stat\<close>, \<open>Inl msg\<close> when it raises; the answers do not change during
    a duplicate scan, which writes nothing. \<open>read_bytes E p\<close> is everything \<^verbatim>\<open>p.open("rb")\<close> reads, \<open>None\<close>
    when opening or reading raises; \<open>hexdigest E b\<close> is the SHA-256 hex digest of the
    byte string \<open>b\<close>.
  \<^item> \<open>exif_datetime E p\<close> is the (year, month) of the first \<^verbatim>\<open>DateTimeOriginal\<close> or
    \<^verbatim>\<open>DateTime\<close> EXIF tag that PIL reads and \<^verbatim>\<open>strptime\<close> parses, \<open>None\<close> otherwise.
  \<^item> \<open>mkdir_fails\<close>, \<open>copy2_fails\<close>, \<open>move_fails\<close> answer \<open>Some msg\<close> when the call raises.
  \<^item> \<open>face_encodings E p\<close> is \<^verbatim>\<open>face_recognition.face_encodings(load_image_file(p))\<close>, the
    empty list when it raises; \<open>face_dist\<close> is the distance \<^verbatim>\<open>face_distance\<close> computes for
    one pair of vectors.
  \<^item> \<open>set_order E S\<close> is the order in which Python iterates the set \<open>S\<close>.
\<close>

subsection \<open>Configuration\<close>

definition EXTENSIONS :: "(string \<times> string list) list" where
  "EXTENSIONS =
    [(''Photos'', [''.jpg'', ''.jpeg'', ''.png'', ''.gif'', ''.bmp'', ''.tiff'', ''.webp'', ''.heic'']),
     (''Videos'', [''.mp4'', ''.mkv'', ''.mov'', ''.avi'', ''.wmv'', ''.flv'', ''.webm'']),
     (''Audio'', [''.mp3'', ''.wav'', ''.aac'', ''.flac'', ''.ogg'', ''.m4a'']),
     (''Documents'', [''.doc'', ''.docx'', ''.odt'', ''.rtf'', ''.txt'']),
     (''PDFs'', [''.pdf'']),
     (''Presentations'', [''.ppt'', ''.pptx'', ''.key'']),
     (''Spreadsheets'', [''.xls'', ''.xlsx'', ''.csv'', ''.ods'']),
     (''Archives'', [''.zip'', ''.rar'', ''.7z'', ''.tar'', ''.gz'', ''.bz2'']),
     (''Code'', [''.py'', ''.java'', ''.c'', ''.cpp'', ''.js'', ''.ts'', ''.html'', ''.css'', ''.tsx'', ''.jsx''])]"

text \<open>
  \<^verbatim>\<open>for g, s in EXTENSIONS.items(): for e in s: EXT_TO_GROUP[e] = g\<close>. No extension stands
  in two of the sets, so the order in which Python walks a set does not matter.
\<close>

definition EXT_TO_GROUP :: "string \<rightharpoonup> string" where
  "EXT_TO_GROUP = fold (\<lambda>(g, s) m. fold (\<lambda>e m. m(e \<mapsto> g)) s m) EXTENSIONS Map.empty"

definition MIME_MAP :: "(string \<times> string) list" where
  "MIME_MAP =
    [(''image'', ''Photos''),
     (''video'', ''Videos''),
     (''audio'', ''Audio''),
     (''application/pdf'', ''PDFs''),
     (''text'', ''Documents'')]"

definition DEFAULT_FOLDERS :: "string list" where
  "DEFAULT_FOLDERS =
    [''Photos'', ''Videos'', ''Audio'', ''Documents'', ''PDFs'', ''Presentations'',
     ''Spreadsheets'', ''Archives'', ''Code'', ''Others'']"

subsection \<open>Utility functions\<close>

text \<open>The loop \<^verbatim>\<open>for key, group in MIME_MAP: if mime.startswith(key): return group\<close>.\<close>

fun match_mime :: "string \<Rightarrow> (string \<times> string) list \<Rightarrow> string option" where
  "match_mime mime [] = None"
| "match_mime mime ((key, grp) # rest) =
     (if startswith mime key then Some grp else match_mime mime rest)"

text \<open>\<^verbatim>\<open>detect_group\<close>; \<open>None\<close> is Python's \<^verbatim>\<open>None\<close>, returned for a directory.\<close>

definition detect_group :: "'v env \<Rightarrow> path \<Rightarrow> string option" where
  "detect_group E path =
     (if is_dir E path then None
      else
        let ext = lower E (suffix path) in
        case EXT_TO_GROUP ext of
          Some g \<Rightarrow> Some g
        | None \<Rightarrow>
            (case guess_type E path of
               None \<Rightarrow> Some ''Others''
             | Some mime \<Rightarrow>
                 if mime = [] then Some ''Others''
                 else
                   (case match_mime mime MIME_MAP of
                      Some grp \<Rightarrow> Some grp
                    | None \<Rightarrow>
                        if mime = ''application/pdf'' then Some ''PDFs'' else Some ''Others'')))"

text \<open>
  The classifier as the specification words it: extension table first, then the first
  rule of the ordered MIME list whose prefix matches the guessed type, then \<open>Others\<close>.
\<close>

definition classify_spec :: "'v env \<Rightarrow> path \<Rightarrow> string" where
  "classify_spec E path =
     (case EXT_TO_GROUP (lower E (suffix path)) of
        Some c \<Rightarrow> c
      | None \<Rightarrow>
          (case guess_type E path of
             None \<Rightarrow> ''Others''
           | Some mime \<Rightarrow>
               (case filter (\<lambda>(pre, c). startswith mime pre) MIME_MAP of
                  [] \<Rightarrow> ''Others''
                | (pre, c) # _ \<Rightarrow> c)))"

definition path_exists :: "fs \<Rightarrow> path \<Rightarrow> bool" where
  "path_exists fs p = (p \<in> set fs)"

text \<open>The candidate \<^verbatim>\<open>parent / f"{stem} ({i}){suffix}"\<close> of \<^verbatim>\<open>unique_dest\<close>.\<close>

definition candidate :: "path \<Rightarrow> nat \<Rightarrow> path" where
  "candidate dest i =
     path_join (parent dest) (stem dest @ '' ('' @ str_nat i @ '')'' @ suffix dest)"

lemma digit_val_digit_char: "d < 10 \<Longrightarrow> digit_val (digit_char d) = d"
proof -
  assume "d < 10"
  then have "d \<in> {0, 1, 2, 3, 4, 5, 6, 7, 8, 9}" by auto
  then show ?thesis by auto
qed

lemma nat_of_str_snoc: "nat_of_str (s @ [c]) = 10 * nat_of_str s + digit_val c"
  by (simp add: nat_of_str_def)

lemma nat_of_str_str_nat: "nat_of_str (str_nat n) = n"
proof (induction n rule: str_nat.induct)
  case (1 n)
  show ?case
  proof (cases "n < 10")
    case True
    then have "str_nat n = [digit_char n]" by (simp add: str_nat.simps)
    then have "nat_of_str (str_nat n) = digit_val (digit_char n)"
      by (simp add: nat_of_str_def)
    with True show ?thesis by (simp only: digit_val_digit_char)
  next
    case False
    then have "str_nat n = str_nat (n div 10) @ [digit_char (n mod 10)]"
      by (subst str_nat.simps) simp
    then have "nat_of_str (str_nat n) = 10 * nat_of_str (str_nat (n div 10)) + digit_val (digit_char (n mod 10))"
      by (simp only: nat_of_str_snoc)
    also have "\<dots> = 10 * (n div 10) + n mod 10"
      using "1.IH" [OF False] by (simp only: digit_val_digit_char [of "n mod 10"] mod_less_divisor)
    finally show ?thesis by simp
  qed
qed

lemma inj_str_nat: "inj str_nat"
  by (rule inj_on_inverseI [where g = nat_of_str]) (rule nat_of_str_str_nat)

lemma inj_candidate: "inj (candidate dest)"
proof (rule injI)
  fix i j
  assume "candidate dest i = candidate dest j"
  then have "str_nat i = str_nat j"
    by (simp add: candidate_def path_join_def)
  then show "i = j" using inj_str_nat by (simp add: inj_def)
qed

lemma finite_taken: "finite {j. candidate dest j \<in> set fs}"
proof -
  have "finite (candidate dest -` set fs)"
    by (rule finite_vimageI) (simp_all add: inj_candidate)
  then show ?thesis by (simp add: vimage_def)
qed

text \<open>
  The loop \<^verbatim>\<open>while True\<close> of \<^verbatim>\<open>unique_dest\<close>. It ends because the candidates are pairwise
  different and only finitely many paths exist.
\<close>

function unique_loop :: "fs \<Rightarrow> path \<Rightarrow> nat \<Rightarrow> path" where
  "unique_loop fs dest i =
     (if \<not> path_exists fs (candidate dest i) then candidate dest i
      else unique_loop fs dest (i + 1))"
  by pat_completeness auto
termination
proof (relation "measure (\<lambda>(fs, dest, i). card {j. i \<le> j \<and> candidate dest j \<in> set fs})")
  show "wf (measure (\<lambda>(fs, dest, i). card {j. i \<le> j \<and> candidate dest j \<in> set fs}))"
    by simp
next
  fix fs :: fs and dest :: path and i :: nat
  assume "\<not> \<not> path_exists fs (candidate dest i)"
  then have here: "candidate dest i \<in> set fs" by (simp add: path_exists_def)
  have fin: "finite {j. i \<le> j \<and> candidate dest j \<in> set fs}"
    by (rule finite_subset [OF _ finite_taken [of dest fs]]) auto
  have sub: "{j. i + 1 \<le> j \<and> candidate dest j \<in> set fs} \<subseteq> {j. i \<le> j \<and> candidate dest j \<in> set fs}"
    by auto
  have "i \<in> {j. i \<le> j \<and> candidate dest j \<in> set fs}"
    using here by simp
  moreover have "i \<notin> {j. i + 1 \<le> j \<and> candidate dest j \<in> set fs}"
    by simp
  ultimately have "{j. i + 1 \<le> j \<and> candidate dest j \<in> set fs} \<subset> {j. i \<le> j \<and> candidate dest j \<in> set fs}"
    using sub by blast
  then have "card {j. i + 1 \<le> j \<and> candidate dest j \<in> set fs} < card {j. i \<le> j \<and> candidate dest j \<in> set fs}"
    by (rule psubset_card_mono [OF fin])
  then show "((fs, dest, i + 1), (fs, dest, i)) \<in> measure (\<lambda>(fs, dest, i). card {j. i \<le> j \<and> candidate dest j \<in> set fs})"
    by simp
qed

declare unique_loop.simps [simp del]

definition unique_dest :: "fs \<Rightarrow> path \<Rightarrow> path" where
  "unique_dest fs dest = (if \<not> path_exists fs dest then dest else unique_loop fs dest 1)"

text \<open>\<^verbatim>\<open>str(path)\<close> of an absolute POSIX path.\<close>

definition str_path :: "path \<Rightarrow> string" where
  "str_path p = concat (map (\<lambda>c. ''/'' @ c) p)"

text \<open>
  \<^verbatim>\<open>sha256\<close>: the chunks \<^verbatim>\<open>f.read(chunk)\<close> returns until one is empty, fed to the hash
  object one after the other; the digest is that of their concatenation.
\<close>

function read_chunks :: "nat \<Rightarrow> bytes \<Rightarrow> bytes list" where
  "read_chunks chunk data =
     (if take chunk data = [] then []
      else take chunk data # read_chunks chunk (drop chunk data))"
  by pat_completeness auto
termination
  by (relation "measure (\<lambda>(chunk, data). length data)") auto

declare read_chunks.simps [simp del]

definition sha256 :: "'v env \<Rightarrow> path \<Rightarrow> string option" where
  "sha256 E path =
     (case read_bytes E path of
        None \<Rightarrow> None
      | Some data \<Rightarrow> Some (hexdigest E (concat (read_chunks (1024 * 1024) data))))"

text \<open>\<^verbatim>\<open>iter_files\<close>, as the list the workers make of it.\<close>

definition iter_files :: "'v env \<Rightarrow> path \<Rightarrow> bool \<Rightarrow> exn + path list" where
  "iter_files E base include_sub =
     (case (if include_sub then rglob E base else iterdir E base) of
        Inl e \<Rightarrow> Inl e
      | Inr ps \<Rightarrow> Inr (filter (is_file E) ps))"

text \<open>
  \<^verbatim>\<open>Path.mkdir(exist_ok=True)\<close> and \<^verbatim>\<open>Path.mkdir(parents=True, exist_ok=True)\<close>: the
  directory exists afterwards, with its ancestors in the second form.
\<close>

definition mkdir :: "'v env \<Rightarrow> fs \<Rightarrow> path \<Rightarrow> exn + fs" where
  "mkdir E fs d = (case mkdir_fails E d of Some e \<Rightarrow> Inl e | None \<Rightarrow> Inr (d # fs))"

definition mkdir_parents :: "'v env \<Rightarrow> fs \<Rightarrow> path \<Rightarrow> exn + fs" where
  "mkdir_parents E fs d =
     (case mkdir_fails E d of
        Some e \<Rightarrow> Inl e
      | None \<Rightarrow> Inr (map (\<lambda>k. take k d) [1..<Suc (length d)] @ fs))"

fun ensure_loop :: "'v env \<Rightarrow> fs \<Rightarrow> path \<Rightarrow> string list \<Rightarrow> exn + fs" where
  "ensure_loop E fs base [] = Inr fs"
| "ensure_loop E fs base (g # gs) =
     (case mkdir E fs (path_join base g) of
        Inl e \<Rightarrow> Inl e
      | Inr fs' \<Rightarrow> ensure_loop E fs' base gs)"

definition ensure_dirs :: "'v env \<Rightarrow> fs \<Rightarrow> path \<Rightarrow> string list \<Rightarrow> exn + fs" where
  "ensure_dirs E fs base groups =
     ensure_loop E fs base (if groups = [] then DEFAULT_FOLDERS else groups)"

text \<open>
  \<^verbatim>\<open>safe_copy\<close> and \<^verbatim>\<open>safe_move\<close>: the result or the exception, and the paths that exist
  afterwards.
\<close>

definition safe_copy :: "'v env \<Rightarrow> fs \<Rightarrow> path \<Rightarrow> path \<Rightarrow> (exn + path) \<times> fs" where
  "safe_copy E fs src dst =
     (case mkdir_parents E fs (parent dst) of
        Inl e \<Rightarrow> (Inl e, fs)
      | Inr fs1 \<Rightarrow>
          let dst' = unique_dest fs1 dst in
          (case copy2_fails E src dst' of
             Some e \<Rightarrow> (Inl e, fs1)
           | None \<Rightarrow> (Inr dst', dst' # fs1)))"

definition safe_move :: "'v env \<Rightarrow> fs \<Rightarrow> path \<Rightarrow> path \<Rightarrow> (exn + path) \<times> fs" where
  "safe_move E fs src dst =
     (case mkdir_parents E fs (parent dst) of
        Inl e \<Rightarrow> (Inl e, fs)
      | Inr fs1 \<Rightarrow>
          let dst' = unique_dest fs1 dst in
          (case move_fails E src dst' of
             Some e \<Rightarrow> (Inl e, fs1)
           | None \<Rightarrow> (Inr dst', dst' # removeAll src fs1)))"

definition get_exif_date :: "'v env \<Rightarrow> path \<Rightarrow> (nat \<times> nat) option" where
  "get_exif_date E path = (if \<not> PIL_AVAILABLE E then None else exif_datetime E path)"

text \<open>The format \<^verbatim>\<open>{exif_dt.month:02d}\<close>.\<close>

definition pad2 :: "nat \<Rightarrow> string" where
  "pad2 m = (if m < 10 then ''0'' @ str_nat m else str_nat m)"

subsection \<open>Events\<close>

record dup =
  keep :: path
  delete :: "path list"
  reason :: string

datatype event =
    Progress real
  | Log string
  | ResultDups "dup list"
  | ResultFaces "path list list"
  | Sha256 path
  | Copy2 path path
  | Move path path
  | FaceEncodings path
  | Raise exn

fun progress_of :: "event \<Rightarrow> real option" where
  "progress_of (Progress v) = Some v"
| "progress_of _ = None"

definition progress_values :: "event list \<Rightarrow> real list" where
  "progress_values tr = List.map_filter progress_of tr"

fun log_of :: "event \<Rightarrow> string option" where
  "log_of (Log l) = Some l"
| "log_of _ = None"

definition log_lines :: "event list \<Rightarrow> string list" where
  "log_lines tr = List.map_filter log_of tr"


subsection \<open>The sort worker\<close>

text \<open>
  The destination of one file in the loop of \<^verbatim>\<open>sort_worker\<close>, up to \<^verbatim>\<open>dst = target_dir / f.name\<close>.
  \<^verbatim>\<open>base / group\<close> raises a \<^verbatim>\<open>TypeError\<close> when \<^verbatim>\<open>group\<close> is \<^verbatim>\<open>None\<close>; its message is
  shortened here.
\<close>

definition sort_target :: "'v env \<Rightarrow> path \<Rightarrow> string list \<Rightarrow> bool \<Rightarrow> path \<Rightarrow> exn + path" where
  "sort_target E base groups_selected exif_by_date f =
     (let detected = detect_group E f;
          grp = (if groups_selected \<noteq> [] \<and> detected \<notin> Some ` set groups_selected
                 then Some ''Others'' else detected)
      in case grp of
           None \<Rightarrow> Inl ''unsupported operand type(s) for /''
         | Some g \<Rightarrow>
             let target_dir = path_join base g;
                 target_dir' =
                   (if g = ''Photos'' \<and> exif_by_date \<and> PIL_AVAILABLE E then
                      (case get_exif_date E f of
                         Some (year, month) \<Rightarrow>
                           path_join (path_join target_dir (str_nat year)) (pad2 month)
                       | None \<Rightarrow> target_dir)
                    else target_dir)
             in Inr (path_join target_dir' (name f)))"

text \<open>The branch \<^verbatim>\<open>if move_mode: safe_move ... else: safe_copy ...\<close> inside the \<^verbatim>\<open>try\<close>.\<close>

definition transfer :: "'v env \<Rightarrow> fs \<Rightarrow> bool \<Rightarrow> path \<Rightarrow> path \<Rightarrow> event list \<times> fs" where
  "transfer E fs move_mode f dst =
     (if move_mode then
        (case safe_move E fs f dst of
           (Inl e, fs') \<Rightarrow> ([Log (''Error '' @ name f @ '': '' @ e)], fs')
         | (Inr d, fs') \<Rightarrow> ([Move f d, Log (''Moved: '' @ name f)], fs'))
      else
        (case safe_copy E fs f dst of
           (Inl e, fs') \<Rightarrow> ([Log (''Error '' @ name f @ '': '' @ e)], fs')
         | (Inr d, fs') \<Rightarrow> ([Copy2 f d, Log (''Copied: '' @ name f)], fs')))"

text \<open>The body \<^verbatim>\<open>try: ... except Exception as e: log_cb(f"Error {f.name}: {e}")\<close>.\<close>

definition sort_item ::
  "'v env \<Rightarrow> fs \<Rightarrow> path \<Rightarrow> bool \<Rightarrow> string list \<Rightarrow> bool \<Rightarrow> path \<Rightarrow> event list \<times> fs" where
  "sort_item E fs base move_mode groups_selected exif_by_date f =
     (case sort_target E base groups_selected exif_by_date f of
        Inl e \<Rightarrow> ([Log (''Error '' @ name f @ '': '' @ e)], fs)
      | Inr dst \<Rightarrow> transfer E fs move_mode f dst)"

text \<open>
  The loop \<^verbatim>\<open>for idx, f in enumerate(files, start=1)\<close>; \<open>k\<close> counts the iterations done,
  so \<^verbatim>\<open>idx\<close> is \<open>k + 1\<close>.
\<close>

fun sort_loop ::
  "(nat \<Rightarrow> bool) \<Rightarrow> 'v env \<Rightarrow> path \<Rightarrow> bool \<Rightarrow> string list \<Rightarrow> bool \<Rightarrow> nat \<Rightarrow> nat \<Rightarrow> path list \<Rightarrow> fs
     \<Rightarrow> event list" where
  "sort_loop stop E base move_mode groups_selected exif_by_date total' k [] fs = []"
| "sort_loop stop E base move_mode groups_selected exif_by_date total' k (f # rest) fs =
     (if stop k then [Log ''Sorting cancelled.'']
      else
        (case sort_item E fs base move_mode groups_selected exif_by_date f of
           (ev, fs') \<Rightarrow>
             ev @ Progress (real (k + 1) / real total') #
             sort_loop stop E base move_mode groups_selected exif_by_date total' (k + 1) rest fs'))"

definition sort_worker ::
  "(nat \<Rightarrow> bool) \<Rightarrow> 'v env \<Rightarrow> fs \<Rightarrow> path \<Rightarrow> bool \<Rightarrow> bool \<Rightarrow> string list \<Rightarrow> bool \<Rightarrow> event list" where
  "sort_worker stop E fs base move_mode include_sub groups_selected exif_by_date =
     Log (''Scanning '' @ str_path base @ ''...'') #
     (case iter_files E base include_sub of
        Inl e \<Rightarrow> [Log (''Scan failed: '' @ e)]
      | Inr files \<Rightarrow>
          let total = length files in
          if total = 0 then [Log ''No files found to sort in this folder.'', Progress 1]
          else
            Log (''Found '' @ str_nat total @ '' files. Processing...'') #
            (case ensure_dirs E fs base DEFAULT_FOLDERS of
               Inl e \<Rightarrow> [Raise e]
             | Inr fs1 \<Rightarrow>
                 sort_loop stop E base move_mode groups_selected exif_by_date total 0 files fs1 @
                 [Progress 1, Log ''Operation complete!'']))"

subsection \<open>The duplicate scan worker\<close>

text \<open>
  \<^verbatim>\<open>d.setdefault(k, []).append(v)\<close> on a dictionary, which keeps its keys in the order of
  their first insertion: a list of keys with their lists.
\<close>

fun setdefault_append :: "'k \<Rightarrow> 'a \<Rightarrow> ('k \<times> 'a list) list \<Rightarrow> ('k \<times> 'a list) list" where
  "setdefault_append k v [] = [(k, [v])]"
| "setdefault_append k v ((k', vs) # m) =
     (if k = k' then (k', vs @ [v]) # m else (k', vs) # setdefault_append k v m)"

text \<open>The loop that fills \<^verbatim>\<open>size_map\<close>; a file whose \<^verbatim>\<open>stat\<close> raises is passed over.\<close>

fun build_size_map :: "'v env \<Rightarrow> path list \<Rightarrow> (nat \<times> path list) list \<Rightarrow> (nat \<times> path list) list" where
  "build_size_map E [] size_map = size_map"
| "build_size_map E (f # files) size_map =
     (case stat E f of
        Inl e \<Rightarrow> build_size_map E files size_map
      | Inr s \<Rightarrow> build_size_map E files (setdefault_append (st_size s) f size_map))"

text \<open>The loop that fills \<^verbatim>\<open>hashes\<close>; a file whose hashing raises is passed over.\<close>

fun hash_group :: "'v env \<Rightarrow> path list \<Rightarrow> (string \<times> path list) list \<Rightarrow> (string \<times> path list) list" where
  "hash_group E [] hashes = hashes"
| "hash_group E (f # files) hashes =
     (case sha256 E f of
        None \<Rightarrow> hash_group E files hashes
      | Some h \<Rightarrow> hash_group E files (setdefault_append h f hashes))"

text \<open>
  \<^verbatim>\<open>max(h_group, key=lambda p: p.stat().st_mtime)\<close>: the first member with the largest
  modification time; the exception of \<^verbatim>\<open>stat\<close> is not caught here.
\<close>

fun max_loop :: "'v env \<Rightarrow> path \<Rightarrow> real \<Rightarrow> path list \<Rightarrow> exn + path" where
  "max_loop E best best_key [] = Inr best"
| "max_loop E best best_key (p # ps) =
     (case stat E p of
        Inl e \<Rightarrow> Inl e
      | Inr s \<Rightarrow>
          if best_key < st_mtime s then max_loop E p (st_mtime s) ps
          else max_loop E best best_key ps)"

definition max_mtime :: "'v env \<Rightarrow> path list \<Rightarrow> exn + path" where
  "max_mtime E ps =
     (case ps of
        [] \<Rightarrow> Inl ''max() arg is an empty sequence''
      | p # ps' \<Rightarrow> (case stat E p of Inl e \<Rightarrow> Inl e | Inr s \<Rightarrow> max_loop E p (st_mtime s) ps'))"

text \<open>The loop \<^verbatim>\<open>for h_group in hashes.values()\<close>.\<close>

fun collect_dups :: "'v env \<Rightarrow> path list list \<Rightarrow> dup list \<Rightarrow> exn + dup list" where
  "collect_dups E [] duplicates = Inr duplicates"
| "collect_dups E (h_group # rest) duplicates =
     (if length h_group > 1 then
        (case max_mtime E h_group of
           Inl e \<Rightarrow> Inl e
         | Inr kp \<Rightarrow>
             collect_dups E rest
               (duplicates @
                [\<lparr>keep = kp, delete = filter (\<lambda>p. p \<noteq> kp) h_group, reason = ''exact''\<rparr>]))
      else collect_dups E rest duplicates)"

text \<open>
  The loop \<^verbatim>\<open>for group in size_map.values()\<close>; \<open>k\<close> counts the iterations done, so
  \<^verbatim>\<open>current_grp\<close> is \<open>k + 1\<close> in the body. \<^verbatim>\<open>sha256\<close> is called once for every file of a
  group of two or more, in order. The counter \<^verbatim>\<open>processed\<close> is never read and is left
  out.
\<close>

fun scan_groups ::
  "(nat \<Rightarrow> bool) \<Rightarrow> 'v env \<Rightarrow> nat \<Rightarrow> nat \<Rightarrow> path list list \<Rightarrow> dup list
     \<Rightarrow> event list \<times> (exn + dup list)" where
  "scan_groups stop E total_size_groups k [] duplicates = ([], Inr duplicates)"
| "scan_groups stop E total_size_groups k (grp # rest) duplicates =
     (if stop k then ([], Inr duplicates)
      else if length grp < 2 then
        (case scan_groups stop E total_size_groups (k + 1) rest duplicates of
           (ev, r) \<Rightarrow> (Progress (real (k + 1) / real total_size_groups) # ev, r))
      else
        (case collect_dups E (map snd (hash_group E grp [])) duplicates of
           Inl e \<Rightarrow> (map Sha256 grp, Inl e)
         | Inr duplicates' \<Rightarrow>
             (case scan_groups stop E total_size_groups (k + 1) rest duplicates' of
                (ev, r) \<Rightarrow>
                  (map Sha256 grp @ Progress (real (k + 1) / real total_size_groups) # ev, r))))"

definition duplicate_scan_worker ::
  "(nat \<Rightarrow> bool) \<Rightarrow> 'v env \<Rightarrow> path \<Rightarrow> bool \<Rightarrow> bool \<Rightarrow> bool \<Rightarrow> real \<Rightarrow> event list" where
  "duplicate_scan_worker stop E base include_sub images_only use_phash perceptual_threshold =
     Log ''Listing files...'' #
     (case iter_files E base include_sub of
        Inl e \<Rightarrow> [Raise e]
      | Inr listed \<Rightarrow>
          let files = (if images_only then filter (\<lambda>f. detect_group E f = Some ''Photos'') listed
                       else listed);
              total = length files
          in
          if total = 0 then [Log ''No files to scan.'', ResultDups []]
          else
            Log (''Scanning '' @ str_nat total @ '' files for duplicates...'') #
            (let size_map = build_size_map E files [] in
             case scan_groups stop E (length size_map) 0 (map snd size_map) [] of
               (ev, Inl e) \<Rightarrow> ev @ [Raise e]
             | (ev, Inr duplicates) \<Rightarrow>
                 ev @ [ResultDups duplicates,
                       Log (''Found '' @ str_nat (length duplicates) @ '' duplicate groups.'')]))"

subsection \<open>The face grouping worker\<close>

record 'v cluster =
  encodings :: "'v list"
  images :: "path set"

text \<open>\<^verbatim>\<open>face_recognition.face_distance(c['encodings'], enc)\<close>: one distance per encoding.\<close>

definition face_distance :: "'v env \<Rightarrow> 'v list \<Rightarrow> 'v \<Rightarrow> real list" where
  "face_distance E encs enc = map (\<lambda>e. face_dist E e enc) encs"

text \<open>
  The literal \<^verbatim>\<open>0.6\<close> of the test \<^verbatim>\<open>min(dists) < 0.6\<close>: the double nearest to 6/10, which is
  5404319552844595 / 2^53 and lies below 6/10.
\<close>

definition face_threshold :: real where
  "face_threshold = 5404319552844595 / 9007199254740992"

text \<open>The test \<^verbatim>\<open>len(dists) > 0 and min(dists) < 0.6\<close>.\<close>

definition matches :: "'v env \<Rightarrow> 'v cluster \<Rightarrow> 'v \<Rightarrow> bool" where
  "matches E c enc =
     (let dists = face_distance E (encodings c) enc
      in length dists > 0 \<and> Min (set dists) < face_threshold)"

text \<open>
  The loop \<^verbatim>\<open>for c in clusters\<close> with its flag \<^verbatim>\<open>found\<close>: the first cluster that matches
  takes the encoding and the image, and the loop breaks.
\<close>

fun scan_clusters :: "'v env \<Rightarrow> 'v \<Rightarrow> path \<Rightarrow> 'v cluster list \<Rightarrow> bool \<times> 'v cluster list" where
  "scan_clusters E enc p [] = (False, [])"
| "scan_clusters E enc p (c # cs) =
     (if matches E c enc then
        (True, c\<lparr>encodings := encodings c @ [enc], images := insert p (images c)\<rparr> # cs)
      else (case scan_clusters E enc p cs of (found, cs') \<Rightarrow> (found, c # cs')))"

definition place_encoding :: "'v env \<Rightarrow> path \<Rightarrow> 'v \<Rightarrow> 'v cluster list \<Rightarrow> 'v cluster list" where
  "place_encoding E p enc clusters =
     (case scan_clusters E enc p clusters of
        (found, cs) \<Rightarrow>
          if \<not> found then cs @ [\<lparr>encodings = [enc], images = {p}\<rparr>] else cs)"

text \<open>The loop \<^verbatim>\<open>for idx, p in enumerate(photos)\<close>; \<open>k\<close> is \<^verbatim>\<open>idx\<close>.\<close>

fun face_loop ::
  "(nat \<Rightarrow> bool) \<Rightarrow> 'v env \<Rightarrow> nat \<Rightarrow> nat \<Rightarrow> path list \<Rightarrow> 'v cluster list
     \<Rightarrow> event list \<times> 'v cluster list" where
  "face_loop stop E total' k [] clusters = ([], clusters)"
| "face_loop stop E total' k (p # rest) clusters =
     (if stop k then ([], clusters)
      else
        (case face_loop stop E total' (k + 1) rest
                (fold (place_encoding E p) (face_encodings E p) clusters) of
           (ev, r) \<Rightarrow> (FaceEncodings p # Progress (real (k + 1) / real total') # ev, r)))"

text \<open>
  The loop \<^verbatim>\<open>for img in c['images']\<close>, over the images in the order Python gives them;
  an exception of \<^verbatim>\<open>copy2\<close> is not caught.
\<close>

fun copy_images ::
  "'v env \<Rightarrow> fs \<Rightarrow> path \<Rightarrow> path list \<Rightarrow> path list \<Rightarrow> event list \<times> (exn + path list \<times> fs)" where
  "copy_images E fs p_dir [] img_list = ([], Inr (img_list, fs))"
| "copy_images E fs p_dir (img # rest) img_list =
     (let dest = unique_dest fs (path_join p_dir (name img)) in
      case copy2_fails E img dest of
        Some e \<Rightarrow> ([], Inl e)
      | None \<Rightarrow>
          (case copy_images E (dest # fs) p_dir rest (img_list @ [dest]) of
             (ev, r) \<Rightarrow> (Copy2 img dest # ev, r)))"

text \<open>The loop \<^verbatim>\<open>for i, c in enumerate(clusters, 1)\<close>.\<close>

fun make_albums ::
  "'v env \<Rightarrow> fs \<Rightarrow> path \<Rightarrow> nat \<Rightarrow> 'v cluster list \<Rightarrow> path list list
     \<Rightarrow> event list \<times> (exn + path list list)" where
  "make_albums E fs faces_dir i [] final_groups = ([], Inr final_groups)"
| "make_albums E fs faces_dir i (c # rest) final_groups =
     (let p_dir = path_join faces_dir (''Person_'' @ str_nat i) in
      case mkdir E fs p_dir of
        Inl e \<Rightarrow> ([], Inl e)
      | Inr fs1 \<Rightarrow>
          (case copy_images E fs1 p_dir (set_order E (images c)) [] of
             (ev, Inl e) \<Rightarrow> (ev, Inl e)
           | (ev, Inr (img_list, fs2)) \<Rightarrow>
               (case make_albums E fs2 faces_dir (i + 1) rest (final_groups @ [img_list]) of
                  (ev', r) \<Rightarrow> (ev @ ev', r))))"

definition face_grouping_worker ::
  "(nat \<Rightarrow> bool) \<Rightarrow> 'v env \<Rightarrow> fs \<Rightarrow> path \<Rightarrow> bool \<Rightarrow> event list" where
  "face_grouping_worker stop E fs base include_sub =
     (if \<not> FACE_AVAILABLE E then [Log ''Face recognition not installed.'', Progress 1]
      else
        (case iter_files E base include_sub of
           Inl e \<Rightarrow> [Raise e]
         | Inr listed \<Rightarrow>
             let photos = filter (\<lambda>p. detect_group E p = Some ''Photos'') listed;
                 total = length photos
             in
             if photos = [] then [Log ''No photos found.'', Progress 1]
             else
               Log (''Analyzing faces in '' @ str_nat total @ '' photos...'') #
               (case face_loop stop E total 0 photos [] of
                  (ev, clusters) \<Rightarrow>
                    ev @
                    (case mkdir E fs (path_join base ''Faces'') of
                       Inl e \<Rightarrow> [Raise e]
                     | Inr fs1 \<Rightarrow>
                         (case make_albums E fs1 (path_join base ''Faces'') 1 clusters [] of
                            (ev', Inl e) \<Rightarrow> ev' @ [Raise e]
                          | (ev', Inr final_groups) \<Rightarrow>
                              ev' @
                              [Log (''Created '' @ str_nat (length final_groups) @ '' face albums.''),
                               ResultFaces final_groups])))))"


subsection \<open>Vocabulary of the statements\<close>

text \<open>
  The definitions of this subsection are not code of the program; the statements about
  the workers are written with them. \<open>size_of\<close> and \<open>mtime_of\<close> read \<^verbatim>\<open>st_size\<close> and
  \<^verbatim>\<open>st_mtime\<close> of a file (no size, and time 0, when \<^verbatim>\<open>stat\<close> raises).
\<close>

definition size_of :: "'v env \<Rightarrow> path \<Rightarrow> nat option" where
  "size_of E f = (case stat E f of Inl e \<Rightarrow> None | Inr s \<Rightarrow> Some (st_size s))"

definition mtime_of :: "'v env \<Rightarrow> path \<Rightarrow> real" where
  "mtime_of E f = (case stat E f of Inl e \<Rightarrow> 0 | Inr s \<Rightarrow> st_mtime s)"

text \<open>
  The common shape of the two loops that fill \<^verbatim>\<open>size_map\<close> and \<^verbatim>\<open>hashes\<close>: every item
  that has a key is appended to the list of its key.
\<close>

fun fill :: "('a \<Rightarrow> 'k option) \<Rightarrow> 'a list \<Rightarrow> ('k \<times> 'a list) list \<Rightarrow> ('k \<times> 'a list) list" where
  "fill kf [] m = m"
| "fill kf (x # xs) m =
     (case kf x of None \<Rightarrow> fill kf xs m | Some k \<Rightarrow> fill kf xs (setdefault_append k x m))"

text \<open>
  The first file of a list, in its order, whose modification time is the largest of the
  list; the duplicate group made of a digest group; the groups a size bucket gives.
\<close>

definition first_newest :: "'v env \<Rightarrow> path list \<Rightarrow> path" where
  "first_newest E h = hd (filter (\<lambda>p. mtime_of E p = Max (mtime_of E ` set h)) h)"

definition mk_dup :: "'v env \<Rightarrow> path list \<Rightarrow> dup" where
  "mk_dup E h =
     \<lparr>keep = first_newest E h, delete = filter (\<lambda>p. p \<noteq> first_newest E h) h, reason = ''exact''\<rparr>"

definition group_dups :: "'v env \<Rightarrow> path list \<Rightarrow> dup list" where
  "group_dups E g =
     (if length g < 2 then []
      else map (mk_dup E) (filter (\<lambda>h. length h > 1) (map snd (hash_group E g []))))"

text \<open>The members of a duplicate group: the file to keep and the candidates for deletion.\<close>

definition members :: "dup \<Rightarrow> path list" where
  "members d = keep d # delete d"

text \<open>
  The files a duplicate scan works on, the size buckets it makes of them (the values of
  \<^verbatim>\<open>size_map\<close>, in order), and the list its result callback receives.
\<close>

definition scanned_files :: "'v env \<Rightarrow> path list \<Rightarrow> bool \<Rightarrow> path list" where
  "scanned_files E listed images_only =
     (if images_only then filter (\<lambda>f. detect_group E f = Some ''Photos'') listed else listed)"

definition size_buckets :: "'v env \<Rightarrow> path list \<Rightarrow> path list list" where
  "size_buckets E files = map snd (build_size_map E files [])"

fun result_dups :: "event list \<Rightarrow> dup list option" where
  "result_dups [] = None"
| "result_dups (ResultDups ds # tr) = Some ds"
| "result_dups (e # tr) = result_dups tr"

text \<open>
  The number of iterations a loop over \<open>n\<close> items completes when its polls of the stop event
  start at poll \<open>k\<close>: the loop leaves at the first poll that finds the event set.
\<close>

fun polls :: "(nat \<Rightarrow> bool) \<Rightarrow> nat \<Rightarrow> nat \<Rightarrow> nat" where
  "polls stop k 0 = 0"
| "polls stop k (Suc n) = (if stop k then 0 else Suc (polls stop (Suc k) n))"

text \<open>
  A cluster that took one more encoding of an image, and the new cluster of one encoding.
\<close>

definition extended :: "'v cluster \<Rightarrow> 'v \<Rightarrow> path \<Rightarrow> 'v cluster" where
  "extended c enc p = c\<lparr>encodings := encodings c @ [enc], images := insert p (images c)\<rparr>"

definition fresh :: "'v \<Rightarrow> path \<Rightarrow> 'v cluster" where
  "fresh enc p = \<lparr>encodings = [enc], images = {p}\<rparr>"

text \<open>
  A cluster only gains encodings (the old ones stay a prefix) and images; a list of
  clusters only gains clusters, each old one growing at its position. A cluster is
  inhabited when it has an encoding and an image.
\<close>

definition grows :: "'v cluster \<Rightarrow> 'v cluster \<Rightarrow> bool" where
  "grows c c' =
     (take (length (encodings c)) (encodings c') = encodings c \<and> images c \<subseteq> images c')"

definition extends :: "'v cluster list \<Rightarrow> 'v cluster list \<Rightarrow> bool" where
  "extends cs cs' = (length cs \<le> length cs' \<and> (\<forall>i<length cs. grows (cs ! i) (cs' ! i)))"

definition inhabited :: "'v cluster \<Rightarrow> bool" where
  "inhabited c = (encodings c \<noteq> [] \<and> images c \<noteq> {})"

text \<open>
  The clusters of a run over the photos that is not cancelled, and the photos of a
  listing.
\<close>

definition cluster_all :: "'v env \<Rightarrow> path list \<Rightarrow> 'v cluster list \<Rightarrow> 'v cluster list" where
  "cluster_all E photos clusters =
     fold (\<lambda>p. fold (place_encoding E p) (face_encodings E p)) photos clusters"

definition photos_of :: "'v env \<Rightarrow> path list \<Rightarrow> path list" where
  "photos_of E listed = filter (\<lambda>p. detect_group E p = Some ''Photos'') listed"

text \<open>The end of \<^verbatim>\<open>face_grouping_worker\<close>, from \<^verbatim>\<open>faces_dir = base / "Faces"\<close> on.\<close>

definition albums_part :: "'v env \<Rightarrow> fs \<Rightarrow> path \<Rightarrow> 'v cluster list \<Rightarrow> event list" where
  "albums_part E fs base clusters =
     (case mkdir E fs (path_join base ''Faces'') of
        Inl e \<Rightarrow> [Raise e]
      | Inr fs1 \<Rightarrow>
          (case make_albums E fs1 (path_join base ''Faces'') 1 clusters [] of
             (ev', Inl e) \<Rightarrow> ev' @ [Raise e]
           | (ev', Inr final_groups) \<Rightarrow>
               ev' @
               [Log (''Created '' @ str_nat (length final_groups) @ '' face albums.''),
                ResultFaces final_groups]))"

text \<open>
  The paths that exist when the loop of \<^verbatim>\<open>sort_worker\<close> has gone through the files \<open>pre\<close>,
  started with the paths \<open>fs\<close>.
\<close>

definition state_after ::
  "'v env \<Rightarrow> path \<Rightarrow> bool \<Rightarrow> string list \<Rightarrow> bool \<Rightarrow> path list \<Rightarrow> fs \<Rightarrow> fs" where
  "state_after E base move_mode groups_selected exif_by_date pre fs =
     fold (\<lambda>g s. snd (sort_item E s base move_mode groups_selected exif_by_date g)) pre fs"

subsection \<open>A concrete directory\<close>

text \<open>
  A directory \<^verbatim>\<open>/d\<close> with five files, used to run the definitions: \<^verbatim>\<open>a.JPG\<close> and \<^verbatim>\<open>b.jpg\<close>
  have the same 1024 bytes, \<^verbatim>\<open>b.jpg\<close> being the newer; \<^verbatim>\<open>c.txt\<close> has 50 bytes; the last two
  cannot be read. Contents are abbreviated to short strings and the digest is the
  identity. Nothing fails otherwise.
\<close>

definition ascii_lower :: "string \<Rightarrow> string" where
  "ascii_lower s =
     map (\<lambda>c. case map_of (zip ''ABCDEFGHIJKLMNOPQRSTUVWXYZ'' ''abcdefghijklmnopqrstuvwxyz'') c of
                 Some l \<Rightarrow> l | None \<Rightarrow> c) s"

definition demo_files :: "path list" where
  "demo_files =
     [[''d'', ''a.JPG''], [''d'', ''b.jpg''], [''d'', ''c.txt''], [''d'', ''clip.weird''],
      [''d'', ''notes.xyz'']]"

definition demo_env :: "real env" where
  "demo_env =
     \<lparr>lower = ascii_lower,
      guess_type = (\<lambda>p. if name p = ''clip.weird'' then Some ''video/x-weird'' else None),
      is_dir = (\<lambda>p. False),
      is_file = (\<lambda>p. True),
      iterdir = (\<lambda>p. if p = [''d''] then Inr demo_files else Inl ''No such directory''),
      rglob = (\<lambda>p. if p = [''d''] then Inr demo_files else Inl ''No such directory''),
      stat = (\<lambda>p. if p = [''d'', ''a.JPG''] then Inr \<lparr>st_size = 1024, st_mtime = 10\<rparr>
                  else if p = [''d'', ''b.jpg''] then Inr \<lparr>st_size = 1024, st_mtime = 20\<rparr>
                  else if p = [''d'', ''c.txt''] then Inr \<lparr>st_size = 50, st_mtime = 5\<rparr>
                  else Inl ''No such file''),
      read_bytes = (\<lambda>p. if p = [''d'', ''a.JPG''] \<or> p = [''d'', ''b.jpg''] then Some ''xx''
                  else if p = [''d'', ''c.txt''] then Some ''c'' else None),
      hexdigest = (\<lambda>b. b),
      PIL_AVAILABLE = True,
      FACE_AVAILABLE = True,
      exif_datetime = (\<lambda>p. None),
      mkdir_fails = (\<lambda>p. None),
      copy2_fails = (\<lambda>s d. None),
      move_fails = (\<lambda>s d. None),
      face_encodings = (\<lambda>p. if p = [''d'', ''a.JPG''] then [0]
                  else if p = [''d'', ''b.jpg''] then [1 / 10, 5] else []),
      face_dist = (\<lambda>a b. \<bar>a - b\<bar>),
      set_order = (\<lambda>S. filter (\<lambda>p. p \<in> S) demo_files)\<rparr>"

text \<open>The directory with the file \<^verbatim>\<open>c.txt\<close> alone.\<close>

definition one_file_env :: "real env" where
  "one_file_env = demo_env\<lparr>iterdir := (\<lambda>p. Inr [[''d'', ''c.txt'']])\<rparr>"

text \<open>The directory where only \<^verbatim>\<open>a.JPG\<close> can be opened for reading.\<close>

definition unreadable_env :: "real env" where
  "unreadable_env =
     demo_env\<lparr>read_bytes := (\<lambda>p. if p = [''d'', ''a.JPG''] then Some ''xx'' else None)\<rparr>"

text \<open>The directory without files, and the installation without the face library.\<close>

definition empty_env :: "real env" where
  "empty_env = demo_env\<lparr>iterdir := (\<lambda>p. Inr [])\<rparr>"

definition faceless_env :: "real env" where
  "faceless_env = demo_env\<lparr>FACE_AVAILABLE := False\<rparr>"

text \<open>The directory where copying \<^verbatim>\<open>c.txt\<close> is refused.\<close>

definition denied_env :: "real env" where
  "denied_env =
     demo_env\<lparr>copy2_fails :=
       (\<lambda>s d. if s = [''d'', ''c.txt''] then Some ''Permission denied'' else None)\<rparr>"

section \<open>Properties\<close>

subsection \<open>The classifier\<close>

lemma match_mime_filter:
  "match_mime mime rules =
     (case filter (\<lambda>(pre, c). startswith mime pre) rules of [] \<Rightarrow> None | (pre, c) # _ \<Rightarrow> Some c)"
  by (induction rules) auto

lemma match_mime_pdf: "match_mime ''application/pdf'' MIME_MAP = Some ''PDFs''"
  by (simp add: MIME_MAP_def startswith_def)

lemma match_mime_empty: "match_mime [] MIME_MAP = None"
  by (simp add: MIME_MAP_def startswith_def)

text \<open>
  C3. For every path that is not a directory, \<open>detect_group\<close> returns a category, and it
  is the one the resolution order gives: the category of the lowercased extension when
  the extension table has it; otherwise the category of the first rule of the ordered
  MIME list whose prefix matches the guessed MIME type; otherwise \<open>Others\<close>. A path with
  an unknown extension and no guessable MIME type is classified as \<open>Others\<close>. The value
  is a function of the extension and the guessed type alone.
\<close>

theorem detect_group_resolution:
  "\<not> is_dir E path \<Longrightarrow>
     detect_group E path = Some (classify_spec E path) \<and>
     (EXT_TO_GROUP (lower E (suffix path)) = None \<and> guess_type E path = None
        \<longrightarrow> detect_group E path = Some ''Others'')"
proof -
  assume nd: "\<not> is_dir E path"
  have "detect_group E path = Some (classify_spec E path)"
  proof (cases "EXT_TO_GROUP (lower E (suffix path))")
    case (Some g)
    with nd show ?thesis by (simp add: detect_group_def classify_spec_def)
  next
    case None
    note ext = this
    show ?thesis
    proof (cases "guess_type E path")
      case None
      with nd ext show ?thesis by (simp add: detect_group_def classify_spec_def)
    next
      case (Some mime)
      note gt = this
      show ?thesis
      proof (cases "match_mime mime MIME_MAP")
        case (Some grp)
        then have "mime \<noteq> []" using match_mime_empty by auto
        with nd ext gt Some show ?thesis
          by (auto simp: detect_group_def classify_spec_def match_mime_filter split: list.splits)
      next
        case None
        then have "mime \<noteq> ''application/pdf''" using match_mime_pdf by auto
        with nd ext gt None show ?thesis
          by (auto simp: detect_group_def classify_spec_def match_mime_filter split: list.splits)
      qed
    qed
  qed
  moreover have "EXT_TO_GROUP (lower E (suffix path)) = None \<and> guess_type E path = None
        \<longrightarrow> detect_group E path = Some ''Others''"
    using nd by (simp add: detect_group_def)
  ultimately show ?thesis by simp
qed

theorem detect_group_resolution_witness:
  "\<not> is_dir demo_env [''d'', ''a.JPG''] \<and>
   detect_group demo_env [''d'', ''a.JPG''] = Some (classify_spec demo_env [''d'', ''a.JPG'']) \<and>
   classify_spec demo_env [''d'', ''a.JPG''] = ''Photos'' \<and>
   classify_spec demo_env [''d'', ''clip.weird''] = ''Videos'' \<and>
   EXT_TO_GROUP (lower demo_env (suffix [''d'', ''notes.xyz''])) = None \<and>
   guess_type demo_env [''d'', ''notes.xyz''] = None \<and>
   detect_group demo_env [''d'', ''notes.xyz''] = Some ''Others''"
proof -
  have nd: "\<not> is_dir demo_env p" for p
    by (simp add: demo_env_def)
  have a: "classify_spec demo_env [''d'', ''a.JPG''] = ''Photos''"
    by code_simp
  have b: "classify_spec demo_env [''d'', ''clip.weird''] = ''Videos''"
    by code_simp
  have c: "EXT_TO_GROUP (lower demo_env (suffix [''d'', ''notes.xyz''])) = None"
    by code_simp
  have d: "guess_type demo_env [''d'', ''notes.xyz''] = None"
    by (simp add: demo_env_def name_def)
  have r1: "detect_group demo_env [''d'', ''a.JPG''] = Some (classify_spec demo_env [''d'', ''a.JPG''])"
    using detect_group_resolution [OF nd, of "[''d'', ''a.JPG'']"] by (rule conjunct1)
  have r2: "detect_group demo_env [''d'', ''notes.xyz''] = Some ''Others''"
    using detect_group_resolution [OF nd, of "[''d'', ''notes.xyz'']"] c d by blast
  show ?thesis
    by (intro conjI nd r1 a b c d r2)
qed

subsection \<open>The destination resolver\<close>

lemma unique_loop_free: "\<not> path_exists fs (unique_loop fs dest i)"
proof (induction fs dest i rule: unique_loop.induct)
  case (1 fs dest i)
  show ?case
  proof (cases "path_exists fs (candidate dest i)")
    case True
    then show ?thesis using "1.IH" by (subst unique_loop.simps) simp
  next
    case False
    then show ?thesis by (subst unique_loop.simps) simp
  qed
qed

lemma unique_loop_skip:
  "\<forall>j. i \<le> j \<and> j < n \<longrightarrow> path_exists fs (candidate dest j) \<Longrightarrow> i \<le> n \<Longrightarrow>
     unique_loop fs dest i = unique_loop fs dest n"
proof (induction "n - i" arbitrary: i)
  case 0
  then show ?case by simp
next
  case (Suc k)
  then have "i < n" by simp
  with Suc.prems have "path_exists fs (candidate dest i)" by simp
  then have "unique_loop fs dest i = unique_loop fs dest (i + 1)"
    by (subst unique_loop.simps) simp
  also have "\<dots> = unique_loop fs dest n"
    using Suc.hyps(1) [of "i + 1"] Suc.hyps(2) Suc.prems \<open>i < n\<close> by simp
  finally show ?case .
qed

text \<open>
  C4. \<open>unique_dest\<close> never returns a path that exists when it is called; a destination
  that does not exist is returned unchanged; and when the destination and its candidates
  with the suffixes (1) to (n-1) exist and the candidate with the suffix (n) does not,
  the candidate with (n) is returned, where the candidate with (i) is the parent joined
  with stem, a space, the number in parentheses, and the extension.
\<close>

theorem unique_dest_first_free:
  "\<not> path_exists fs (unique_dest fs dest) \<and>
   (\<not> path_exists fs dest \<longrightarrow> unique_dest fs dest = dest) \<and>
   (path_exists fs dest \<and> 0 < n \<and>
      (\<forall>i. 0 < i \<and> i < n \<longrightarrow> path_exists fs (candidate dest i)) \<and>
      \<not> path_exists fs (candidate dest n)
        \<longrightarrow> unique_dest fs dest = candidate dest n) \<and>
   candidate dest n =
     path_join (parent dest) (stem dest @ '' ('' @ str_nat n @ '')'' @ suffix dest)"
proof -
  have a: "\<not> path_exists fs (unique_dest fs dest)"
    by (simp add: unique_dest_def unique_loop_free)
  have b: "\<not> path_exists fs dest \<longrightarrow> unique_dest fs dest = dest"
    by (simp add: unique_dest_def)
  have c: "unique_dest fs dest = candidate dest n"
    if ex: "path_exists fs dest" and pos: "0 < n"
      and taken: "\<forall>i. 0 < i \<and> i < n \<longrightarrow> path_exists fs (candidate dest i)"
      and free: "\<not> path_exists fs (candidate dest n)"
  proof -
    have "unique_loop fs dest 1 = unique_loop fs dest n"
      using taken pos by (intro unique_loop_skip) auto
    also have "\<dots> = candidate dest n"
      using free by (subst unique_loop.simps) simp
    finally show ?thesis using ex by (simp add: unique_dest_def)
  qed
  show ?thesis using a b c by (simp add: candidate_def)
qed

theorem unique_dest_first_free_witness:
  "path_exists [[''d'', ''a.txt''], [''d'', ''a (1).txt'']] [''d'', ''a.txt''] \<and>
   path_exists [[''d'', ''a.txt''], [''d'', ''a (1).txt'']] (candidate [''d'', ''a.txt''] 1) \<and>
   unique_dest [[''d'', ''a.txt''], [''d'', ''a (1).txt'']] [''d'', ''a.txt''] = [''d'', ''a (2).txt''] \<and>
   unique_dest [[''d'', ''a.txt''], [''d'', ''a (1).txt'']] [''d'', ''b.txt''] = [''d'', ''b.txt'']"
proof -
  let ?fs = "[[''d'', ''a.txt''], [''d'', ''a (1).txt'']]"
  let ?d = "[''d'', ''a.txt'']"
  have c1: "candidate ?d 1 = [''d'', ''a (1).txt'']"
    by code_simp
  have c2: "candidate ?d 2 = [''d'', ''a (2).txt'']"
    by code_simp
  have ex: "path_exists ?fs ?d"
    by (simp add: path_exists_def)
  have taken: "\<forall>i. 0 < i \<and> i < 2 \<longrightarrow> path_exists ?fs (candidate ?d i)"
  proof (intro allI impI)
    fix i :: nat
    assume "0 < i \<and> i < 2"
    then have "i = 1" by arith
    then show "path_exists ?fs (candidate ?d i)"
      using c1 by (simp add: path_exists_def)
  qed
  have free: "\<not> path_exists ?fs (candidate ?d 2)"
    by (simp add: c2 path_exists_def)
  have nx: "\<not> path_exists ?fs [''d'', ''b.txt'']"
    by (simp add: path_exists_def)
  have p1: "path_exists ?fs (candidate ?d 1)"
    by (subst c1) (simp add: path_exists_def)
  have "unique_dest ?fs ?d = candidate ?d 2"
    by (rule unique_dest_first_free [of ?fs ?d 2, THEN conjunct2, THEN conjunct2, THEN conjunct1, THEN mp])
      (intro conjI ex taken free, simp)
  then have r1: "unique_dest ?fs ?d = [''d'', ''a (2).txt'']"
    using c2 by (rule trans)
  have r2: "unique_dest ?fs [''d'', ''b.txt''] = [''d'', ''b.txt'']"
    by (rule unique_dest_first_free [of ?fs "[''d'', ''b.txt'']" 0, THEN conjunct2, THEN conjunct1, THEN mp, OF nx])
  show ?thesis
    by (intro conjI ex p1 r1 r2)
qed

lemma build_size_map_fill: "build_size_map E files m = fill (size_of E) files m"
  by (induction files arbitrary: m) (auto simp: size_of_def split: sum.splits)

lemma hash_group_fill: "hash_group E files m = fill (sha256 E) files m"
  by (induction files arbitrary: m) (auto split: option.splits)

lemma map_of_setdefault:
  "map_of (setdefault_append k v m) =
     (map_of m)(k \<mapsto> (case map_of m k of None \<Rightarrow> [v] | Some vs \<Rightarrow> vs @ [v]))"
  by (induction m) (auto simp: fun_eq_iff)

lemma keys_setdefault:
  "fst ` set (setdefault_append k v m) = insert k (fst ` set m)"
proof (induction m)
  case Nil
  show ?case by simp
next
  case (Cons a m)
  obtain k' vs where a: "a = (k', vs)" by (cases a)
  show ?case
    using Cons a by (cases "k = k'") (simp_all add: insert_commute)
qed

lemma distinct_setdefault:
  "distinct (map fst m) \<Longrightarrow> distinct (map fst (setdefault_append k v m))"
  by (induction m) (auto simp: keys_setdefault)

lemma distinct_fill: "distinct (map fst m) \<Longrightarrow> distinct (map fst (fill kf xs m))"
  by (induction xs arbitrary: m) (auto simp: distinct_setdefault split: option.splits)

lemma map_of_fill:
  "map_of (fill kf xs m) k =
     (case map_of m k of
        None \<Rightarrow> (if filter (\<lambda>x. kf x = Some k) xs = [] then None
                 else Some (filter (\<lambda>x. kf x = Some k) xs))
      | Some vs \<Rightarrow> Some (vs @ filter (\<lambda>x. kf x = Some k) xs))"
proof (induction xs arbitrary: m)
  case Nil
  then show ?case by (simp split: option.splits)
next
  case (Cons x xs)
  show ?case
  proof (cases "kf x")
    case None
    then show ?thesis using Cons.IH [of m] by (simp split: option.splits)
  next
    case (Some k')
    then show ?thesis
      using Cons.IH [of "setdefault_append k' x m"]
      by (auto simp: map_of_setdefault split: option.splits)
  qed
qed

lemma fill_empty_iff:
  "(k, b) \<in> set (fill kf xs []) \<longleftrightarrow> b = filter (\<lambda>x. kf x = Some k) xs \<and> b \<noteq> []"
proof -
  have d: "distinct (map fst (fill kf xs []))"
    by (rule distinct_fill) simp
  have "(k, b) \<in> set (fill kf xs []) \<longleftrightarrow> map_of (fill kf xs []) k = Some b"
    using d by simp
  also have "\<dots> \<longleftrightarrow> b = filter (\<lambda>x. kf x = Some k) xs \<and> b \<noteq> []"
    by (auto simp: map_of_fill)
  finally show ?thesis .
qed

lemma max_loop_mem: "max_loop E best bk ps = Inr r \<Longrightarrow> r \<in> set (best # ps)"
  by (induction ps arbitrary: best bk) (auto split: sum.splits if_splits)

lemma max_mtime_mem: "max_mtime E h = Inr r \<Longrightarrow> r \<in> set h"
  by (auto simp: max_mtime_def split: list.splits sum.splits dest: max_loop_mem)

lemma max_loop_first:
  "\<forall>p\<in>set ps. \<exists>s. stat E p = Inr s \<Longrightarrow>
     \<exists>r pre post. max_loop E best (mtime_of E best) ps = Inr r \<and> best # ps = pre @ r # post \<and>
       (\<forall>p\<in>set pre. mtime_of E p < mtime_of E r) \<and> (\<forall>p\<in>set post. mtime_of E p \<le> mtime_of E r)"
proof (induction ps arbitrary: best)
  case Nil
  show ?case by (rule exI [of _ best], rule exI [of _ "[]"], rule exI [of _ "[]"]) simp
next
  case (Cons p ps)
  from Cons.prems obtain s where s: "stat E p = Inr s" by auto
  then have mp: "mtime_of E p = st_mtime s" by (simp add: mtime_of_def)
  from Cons.prems have rest: "\<forall>p\<in>set ps. \<exists>s. stat E p = Inr s" by simp
  show ?case
  proof (cases "mtime_of E best < st_mtime s")
    case True
    from Cons.IH [OF rest, of p] obtain r pre post where
      r: "max_loop E p (mtime_of E p) ps = Inr r" and sp: "p # ps = pre @ r # post"
      and lt: "\<forall>q\<in>set pre. mtime_of E q < mtime_of E r"
      and le: "\<forall>q\<in>set post. mtime_of E q \<le> mtime_of E r" by blast
    have "p \<in> set (pre @ r # post)" using sp [symmetric] by simp
    then have "mtime_of E p \<le> mtime_of E r" using lt le by auto
    then have bl: "mtime_of E best < mtime_of E r" using True mp by simp
    have "max_loop E best (mtime_of E best) (p # ps) = Inr r"
      using s True r mp by simp
    moreover have "best # p # ps = (best # pre) @ r # post" using sp by simp
    moreover have "\<forall>q\<in>set (best # pre). mtime_of E q < mtime_of E r" using lt bl by simp
    ultimately show ?thesis using le by blast
  next
    case False
    from Cons.IH [OF rest, of best] obtain r pre post where
      r: "max_loop E best (mtime_of E best) ps = Inr r" and sp: "best # ps = pre @ r # post"
      and lt: "\<forall>q\<in>set pre. mtime_of E q < mtime_of E r"
      and le: "\<forall>q\<in>set post. mtime_of E q \<le> mtime_of E r" by blast
    have res: "max_loop E best (mtime_of E best) (p # ps) = Inr r"
      using s False r by simp
    show ?thesis
    proof (cases pre)
      case Nil
      then have "r = best" and "post = ps" using sp by simp_all
      then have "best # p # ps = [] @ r # (p # post)" by simp
      moreover have "\<forall>q\<in>set (p # post). mtime_of E q \<le> mtime_of E r"
        using le False mp \<open>r = best\<close> by simp
      ultimately show ?thesis using res
        by - (rule exI [of _ r], rule exI [of _ "[]"], rule exI [of _ "p # post"], simp)
    next
      case (Cons b pre')
      then have b: "b = best" and ps: "ps = pre' @ r # post" using sp by simp_all
      have "mtime_of E best < mtime_of E r" using lt Cons b by simp
      then have "mtime_of E p < mtime_of E r" using False mp by simp
      then have "\<forall>q\<in>set (best # p # pre'). mtime_of E q < mtime_of E r"
        using lt Cons b by simp
      moreover have "best # p # ps = (best # p # pre') @ r # post" using ps by simp
      ultimately show ?thesis using res le by blast
    qed
  qed
qed

lemma first_newest_split:
  assumes "h = pre @ r # post"
    and "\<forall>p\<in>set pre. mtime_of E p < mtime_of E r"
    and "\<forall>p\<in>set post. mtime_of E p \<le> mtime_of E r"
  shows "first_newest E h = r"
proof -
  have mx: "Max (mtime_of E ` set h) = mtime_of E r"
    using assms by (intro Max_eqI) auto
  have "filter (\<lambda>p. mtime_of E p = mtime_of E r) pre = []"
    using assms(2) by (auto simp: filter_empty_conv)
  moreover have "first_newest E h = hd (filter (\<lambda>p. mtime_of E p = mtime_of E r) h)"
    by (simp only: first_newest_def mx)
  ultimately show ?thesis
    by (simp add: assms(1))
qed

lemma max_mtime_first_newest:
  assumes "h \<noteq> []" and "\<forall>p\<in>set h. \<exists>s. stat E p = Inr s"
  shows "max_mtime E h = Inr (first_newest E h)"
proof -
  from assms(1) obtain p ps where h: "h = p # ps" by (cases h) auto
  from assms(2) h obtain s where s: "stat E p = Inr s" by auto
  from assms(2) h have "\<forall>q\<in>set ps. \<exists>s. stat E q = Inr s" by simp
  from max_loop_first [OF this, of p] obtain r pre post where
    r: "max_loop E p (mtime_of E p) ps = Inr r" and sp: "p # ps = pre @ r # post"
    and lt: "\<forall>q\<in>set pre. mtime_of E q < mtime_of E r"
    and le: "\<forall>q\<in>set post. mtime_of E q \<le> mtime_of E r" by blast
  have "first_newest E h = r"
    using first_newest_split [OF _ lt le] sp h by simp
  moreover have "max_mtime E h = Inr r"
    using h s r by (simp add: max_mtime_def mtime_of_def)
  ultimately show ?thesis by simp
qed

lemma collect_dups_ok:
  "\<forall>h\<in>set hs. \<forall>p\<in>set h. \<exists>s. stat E p = Inr s \<Longrightarrow>
     collect_dups E hs acc = Inr (acc @ map (mk_dup E) (filter (\<lambda>h. length h > 1) hs))"
proof (induction hs arbitrary: acc)
  case Nil
  show ?case by simp
next
  case (Cons h hs)
  show ?case
  proof (cases "length h > 1")
    case True
    then have "h \<noteq> []" by auto
    then have "max_mtime E h = Inr (first_newest E h)"
      using Cons.prems by (intro max_mtime_first_newest) auto
    then show ?thesis
      using True Cons.IH [of "acc @ [mk_dup E h]"] Cons.prems by (simp add: mk_dup_def)
  next
    case False
    then show ?thesis using Cons.IH [of acc] Cons.prems by simp
  qed
qed

lemma collect_dups_members:
  "collect_dups E hs acc = Inr ds \<Longrightarrow> d \<in> set ds \<Longrightarrow>
     d \<in> set acc \<or> (\<exists>h\<in>set hs. length h > 1 \<and> keep d \<in> set h \<and> delete d = filter (\<lambda>p. p \<noteq> keep d) h)"
proof (induction hs arbitrary: acc)
  case Nil
  then show ?case by simp
next
  case (Cons h hs)
  show ?case
  proof (cases "length h > 1")
    case True
    with Cons.prems(1) obtain kp where kp: "max_mtime E h = Inr kp"
      and rest: "collect_dups E hs (acc @ [\<lparr>keep = kp, delete = filter (\<lambda>p. p \<noteq> kp) h, reason = ''exact''\<rparr>]) = Inr ds"
      by (auto split: sum.splits)
    from Cons.IH [OF rest Cons.prems(2)] show ?thesis
      using True max_mtime_mem [OF kp] by auto
  next
    case False
    with Cons.prems(1) have "collect_dups E hs acc = Inr ds" by simp
    from Cons.IH [OF this Cons.prems(2)] show ?thesis by auto
  qed
qed

lemma hash_group_subset: "(k, h) \<in> set (hash_group E g []) \<Longrightarrow> set h \<subseteq> set g"
  by (auto simp: hash_group_fill fill_empty_iff)

lemma progress_values_simps [simp]:
  "progress_values [] = []"
  "progress_values (Progress v # tr) = v # progress_values tr"
  "progress_values (Log l # tr) = progress_values tr"
  "progress_values (ResultDups ds # tr) = progress_values tr"
  "progress_values (ResultFaces fg # tr) = progress_values tr"
  "progress_values (Sha256 p # tr) = progress_values tr"
  "progress_values (Copy2 a b # tr) = progress_values tr"
  "progress_values (Move a b # tr) = progress_values tr"
  "progress_values (FaceEncodings p # tr) = progress_values tr"
  "progress_values (Raise e # tr) = progress_values tr"
  by (simp_all add: progress_values_def map_filter_simps)

lemma progress_values_append [simp]:
  "progress_values (xs @ ys) = progress_values xs @ progress_values ys"
  by (simp add: progress_values_def map_filter_def)

lemma progress_values_Sha256 [simp]: "progress_values (map Sha256 g) = []"
  by (induction g) simp_all

lemma log_lines_simps [simp]:
  "log_lines [] = []"
  "log_lines (Progress v # tr) = log_lines tr"
  "log_lines (Log l # tr) = l # log_lines tr"
  "log_lines (ResultDups ds # tr) = log_lines tr"
  "log_lines (ResultFaces fg # tr) = log_lines tr"
  "log_lines (Sha256 p # tr) = log_lines tr"
  "log_lines (Copy2 a b # tr) = log_lines tr"
  "log_lines (Move a b # tr) = log_lines tr"
  "log_lines (FaceEncodings p # tr) = log_lines tr"
  "log_lines (Raise e # tr) = log_lines tr"
  by (simp_all add: log_lines_def map_filter_simps)

lemma log_lines_append [simp]: "log_lines (xs @ ys) = log_lines xs @ log_lines ys"
  by (simp add: log_lines_def map_filter_def)

lemma log_lines_Sha256 [simp]: "log_lines (map Sha256 g) = []"
  by (induction g) simp_all

lemma scan_groups_stopped: "stop k \<Longrightarrow> scan_groups stop E n k groups acc = ([], Inr acc)"
  by (cases groups) simp_all

lemma hash_groups_stat:
  assumes "\<forall>p\<in>set g. \<exists>s. stat E p = Inr s"
  shows "\<forall>h\<in>set (map snd (hash_group E g [])). \<forall>p\<in>set h. \<exists>s. stat E p = Inr s"
  using assms hash_group_subset [of _ _ E g] by fastforce

lemma scan_groups_cases [case_names stopped small raised hashed]:
  obtains
    "stop k" and "scan_groups stop E n k (g # groups) acc = ([], Inr acc)"
  | "\<not> stop k" and "length g < 2" and
      "scan_groups stop E n k (g # groups) acc =
         (Progress (real (k + 1) / real n) # fst (scan_groups stop E n (k + 1) groups acc),
          snd (scan_groups stop E n (k + 1) groups acc))"
  | e where "\<not> stop k" and "\<not> length g < 2" and
      "collect_dups E (map snd (hash_group E g [])) acc = Inl e" and
      "scan_groups stop E n k (g # groups) acc = (map Sha256 g, Inl e)"
  | acc' where "\<not> stop k" and "\<not> length g < 2" and
      "collect_dups E (map snd (hash_group E g [])) acc = Inr acc'" and
      "scan_groups stop E n k (g # groups) acc =
         (map Sha256 g @ Progress (real (k + 1) / real n) #
            fst (scan_groups stop E n (k + 1) groups acc'),
          snd (scan_groups stop E n (k + 1) groups acc'))"
proof (cases "stop k")
  case True
  then show ?thesis using that(1) by simp
next
  case False
  note ns = this
  show ?thesis
  proof (cases "length g < 2")
    case True
    then show ?thesis using ns that(2) by (simp add: case_prod_unfold)
  next
    case False
    note big = this
    show ?thesis
    proof (cases "collect_dups E (map snd (hash_group E g [])) acc")
      case (Inl e)
      then show ?thesis using ns big that(3) by simp
    next
      case (Inr acc')
      then show ?thesis using ns big that(4) by (simp add: case_prod_unfold)
    qed
  qed
qed

lemma upt_step: "[k..<k + length (g # groups)] = k # [k + 1..<k + 1 + length groups]"
  by (subst upt_rec) simp

lemma collect_group_dups:
  assumes "\<forall>p\<in>set g. \<exists>s. stat E p = Inr s" and "\<not> length g < 2"
  shows "collect_dups E (map snd (hash_group E g [])) acc = Inr (acc @ group_dups E g)"
  using assms collect_dups_ok [OF hash_groups_stat, of g E acc] by (simp add: group_dups_def)

lemma scan_groups_result:
  assumes "\<forall>i. \<not> stop i"
  shows "\<forall>g\<in>set groups. \<forall>p\<in>set g. \<exists>s. stat E p = Inr s \<Longrightarrow>
    snd (scan_groups stop E n k groups acc) = Inr (acc @ concat (map (group_dups E) groups))"
proof (induction groups arbitrary: k acc)
  case Nil
  show ?case by simp
next
  case (Cons g groups)
  have rest: "\<forall>g\<in>set groups. \<forall>p\<in>set g. \<exists>s. stat E p = Inr s"
    using Cons.prems by simp
  have here: "\<forall>p\<in>set g. \<exists>s. stat E p = Inr s"
    using Cons.prems by simp
  note IH = Cons.IH [OF rest]
  show ?case
  proof (cases rule: scan_groups_cases [where stop = stop and k = k and g = g and E = E and n = n
        and groups = groups and acc = acc])
    case stopped
    then show ?thesis using assms by simp
  next
    case small
    then show ?thesis using IH [of "k + 1" acc] by (simp add: group_dups_def)
  next
    case (raised e)
    then show ?thesis using collect_group_dups [OF here, of acc] by simp
  next
    case (hashed acc')
    then have "acc' = acc @ group_dups E g"
      using collect_group_dups [OF here, of acc] by simp
    then show ?thesis using hashed IH [of "k + 1" acc'] by simp
  qed
qed

lemma scan_groups_progress:
  assumes "\<forall>i. \<not> stop i"
  shows "\<forall>g\<in>set groups. \<forall>p\<in>set g. \<exists>s. stat E p = Inr s \<Longrightarrow>
    progress_values (fst (scan_groups stop E n k groups acc)) =
      map (\<lambda>i. real (i + 1) / real n) [k..<k + length groups]"
proof (induction groups arbitrary: k acc)
  case Nil
  show ?case by simp
next
  case (Cons g groups)
  have rest: "\<forall>g\<in>set groups. \<forall>p\<in>set g. \<exists>s. stat E p = Inr s"
    using Cons.prems by simp
  have here: "\<forall>p\<in>set g. \<exists>s. stat E p = Inr s"
    using Cons.prems by simp
  note IH = Cons.IH [OF rest]
  show ?case
  proof (cases rule: scan_groups_cases [where stop = stop and k = k and g = g and E = E and n = n
        and groups = groups and acc = acc])
    case stopped
    then show ?thesis using assms by simp
  next
    case small
    then show ?thesis using IH [of "k + 1" acc] by (simp only: upt_step) simp
  next
    case (raised e)
    then show ?thesis using collect_group_dups [OF here, of acc] by simp
  next
    case (hashed acc')
    then show ?thesis using IH [of "k + 1" acc'] by (simp only: upt_step) simp
  qed
qed

lemma scan_groups_hashed:
  "Sha256 p \<in> set (fst (scan_groups stop E n k groups acc)) \<Longrightarrow>
     \<exists>g\<in>set groups. 2 \<le> length g \<and> p \<in> set g"
proof (induction groups arbitrary: k acc)
  case Nil
  then show ?case by simp
next
  case (Cons g groups)
  show ?case
  proof (cases rule: scan_groups_cases [where stop = stop and k = k and g = g and E = E and n = n
        and groups = groups and acc = acc])
    case stopped
    then show ?thesis using Cons.prems by simp
  next
    case small
    then show ?thesis using Cons.prems Cons.IH [of "k + 1" acc] by auto
  next
    case (raised e)
    then show ?thesis using Cons.prems by auto
  next
    case (hashed acc')
    then show ?thesis using Cons.prems Cons.IH [of "k + 1" acc'] by auto
  qed
qed

lemma scan_groups_logs: "log_lines (fst (scan_groups stop E n k groups acc)) = []"
proof (induction groups arbitrary: k acc)
  case Nil
  show ?case by simp
next
  case (Cons g groups)
  show ?case
    by (cases rule: scan_groups_cases [where stop = stop and k = k and g = g and E = E and n = n
        and groups = groups and acc = acc]) (simp_all add: Cons.IH)
qed

lemma scan_groups_work:
  "e \<in> set (fst (scan_groups stop E n k groups acc)) \<Longrightarrow>
     (\<exists>p. e = Sha256 p) \<or> (\<exists>v. e = Progress v)"
proof (induction groups arbitrary: k acc)
  case Nil
  then show ?case by simp
next
  case (Cons g groups)
  show ?case
  proof (cases rule: scan_groups_cases [where stop = stop and k = k and g = g and E = E and n = n
        and groups = groups and acc = acc])
    case stopped
    then show ?thesis using Cons.prems by simp
  next
    case small
    then show ?thesis using Cons.prems Cons.IH [of "k + 1" acc] by auto
  next
    case (raised e)
    then show ?thesis using Cons.prems by auto
  next
    case (hashed acc')
    then show ?thesis using Cons.prems Cons.IH [of "k + 1" acc'] by auto
  qed
qed

lemma scan_groups_members:
  "snd (scan_groups stop E n k groups acc) = Inr ds \<Longrightarrow> d \<in> set ds \<Longrightarrow>
     d \<in> set acc \<or>
     (\<exists>g\<in>set groups. 2 \<le> length g \<and>
        (\<exists>h\<in>snd ` set (hash_group E g []). length h > 1 \<and> keep d \<in> set h \<and>
            delete d = filter (\<lambda>p. p \<noteq> keep d) h))"
proof (induction groups arbitrary: k acc)
  case Nil
  then show ?case by simp
next
  case (Cons g groups)
  show ?case
  proof (cases rule: scan_groups_cases [where stop = stop and k = k and g = g and E = E and n = n
        and groups = groups and acc = acc])
    case stopped
    then show ?thesis using Cons.prems by simp
  next
    case small
    then have "snd (scan_groups stop E n (k + 1) groups acc) = Inr ds"
      using Cons.prems(1) by simp
    from Cons.IH [OF this Cons.prems(2)] show ?thesis by auto
  next
    case (raised e)
    then show ?thesis using Cons.prems by simp
  next
    case (hashed acc')
    then have "snd (scan_groups stop E n (k + 1) groups acc') = Inr ds"
      using Cons.prems(1) by simp
    from Cons.IH [OF this Cons.prems(2)] consider "d \<in> set acc'"
      | "\<exists>g\<in>set groups. 2 \<le> length g \<and>
          (\<exists>h\<in>snd ` set (hash_group E g []). length h > 1 \<and> keep d \<in> set h \<and>
             delete d = filter (\<lambda>p. p \<noteq> keep d) h)" by blast
    then show ?thesis
    proof cases
      case 1
      from collect_dups_members [OF hashed(3) 1] show ?thesis using hashed(2) by auto
    next
      case 2
      then show ?thesis by auto
    qed
  qed
qed

lemma scan_groups_returns:
  "\<forall>g\<in>set groups. \<forall>p\<in>set g. \<exists>s. stat E p = Inr s \<Longrightarrow>
     \<exists>ds. snd (scan_groups stop E n k groups acc) = Inr ds"
proof (induction groups arbitrary: k acc)
  case Nil
  show ?case by simp
next
  case (Cons g groups)
  have rest: "\<forall>g\<in>set groups. \<forall>p\<in>set g. \<exists>s. stat E p = Inr s"
    using Cons.prems by simp
  have here: "\<forall>p\<in>set g. \<exists>s. stat E p = Inr s"
    using Cons.prems by simp
  note IH = Cons.IH [OF rest]
  show ?case
  proof (cases rule: scan_groups_cases [where stop = stop and k = k and g = g and E = E and n = n
        and groups = groups and acc = acc])
    case stopped
    then show ?thesis by simp
  next
    case small
    then show ?thesis using IH [of "k + 1" acc] by simp
  next
    case (raised e)
    then show ?thesis using collect_group_dups [OF here, of acc] by simp
  next
    case (hashed acc')
    then show ?thesis using IH [of "k + 1" acc'] by simp
  qed
qed

lemma size_buckets_iff:
  "g \<in> set (size_buckets E files) \<longleftrightarrow>
     (\<exists>k. g = filter (\<lambda>f. size_of E f = Some k) files \<and> g \<noteq> [])"
proof -
  have "g \<in> set (size_buckets E files) \<longleftrightarrow> (\<exists>k. (k, g) \<in> set (fill (size_of E) files []))"
    by (force simp: size_buckets_def build_size_map_fill)
  then show ?thesis by (simp add: fill_empty_iff)
qed

lemma size_of_stat: "size_of E p = Some k \<Longrightarrow> \<exists>s. stat E p = Inr s"
  by (cases "stat E p") (simp_all add: size_of_def)

lemma size_buckets_stat: "\<forall>g\<in>set (size_buckets E files). \<forall>p\<in>set g. \<exists>s. stat E p = Inr s"
proof (intro ballI)
  fix g p
  assume "g \<in> set (size_buckets E files)" and p: "p \<in> set g"
  then obtain k where "g = filter (\<lambda>f. size_of E f = Some k) files"
    by (auto simp: size_buckets_iff)
  then have "size_of E p = Some k" using p by simp
  then show "\<exists>s. stat E p = Inr s" by (rule size_of_stat)
qed

lemma dup_worker_unfold:
  assumes "iter_files E base include_sub = Inr listed"
    and "scanned_files E listed images_only \<noteq> []"
  shows "duplicate_scan_worker stop E base include_sub images_only use_phash perceptual_threshold =
     Log ''Listing files...'' #
     Log (''Scanning '' @ str_nat (length (scanned_files E listed images_only)) @
          '' files for duplicates...'') #
     fst (scan_groups stop E (length (size_buckets E (scanned_files E listed images_only))) 0
            (size_buckets E (scanned_files E listed images_only)) []) @
     (case snd (scan_groups stop E (length (size_buckets E (scanned_files E listed images_only))) 0
            (size_buckets E (scanned_files E listed images_only)) []) of
        Inl e \<Rightarrow> [Raise e]
      | Inr ds \<Rightarrow>
          [ResultDups ds, Log (''Found '' @ str_nat (length ds) @ '' duplicate groups.'')])"
  using assms
  by (simp add: duplicate_scan_worker_def scanned_files_def size_buckets_def Let_def
      split: prod.splits sum.splits)

lemma dup_worker_empty:
  assumes "iter_files E base include_sub = Inr listed"
    and "scanned_files E listed images_only = []"
  shows "duplicate_scan_worker stop E base include_sub images_only use_phash perceptual_threshold =
     [Log ''Listing files...'', Log ''No files to scan.'', ResultDups []]"
  using assms by (simp add: duplicate_scan_worker_def scanned_files_def Let_def)

lemma result_dups_scan:
  "result_dups (fst (scan_groups stop E n k groups acc) @ tr) = result_dups tr"
proof -
  have "(\<forall>e\<in>set xs. (\<exists>p. e = Sha256 p) \<or> (\<exists>v. e = Progress v)) \<Longrightarrow>
      result_dups (xs @ tr) = result_dups tr" for xs
    by (induction xs) auto
  then show ?thesis using scan_groups_work by blast
qed

lemma first_newest_mem: "h \<noteq> [] \<Longrightarrow> first_newest E h \<in> set h"
proof -
  assume "h \<noteq> []"
  then have "Max (mtime_of E ` set h) \<in> mtime_of E ` set h"
    by (intro Max_in) auto
  then obtain p where "p \<in> set h" and "mtime_of E p = Max (mtime_of E ` set h)"
    by auto
  then have ne: "filter (\<lambda>p. mtime_of E p = Max (mtime_of E ` set h)) h \<noteq> []"
    by (auto simp: filter_empty_conv)
  have "hd (filter (\<lambda>p. mtime_of E p = Max (mtime_of E ` set h)) h)
      \<in> set (filter (\<lambda>p. mtime_of E p = Max (mtime_of E ` set h)) h)"
    using ne by (rule hd_in_set)
  then show ?thesis by (simp add: first_newest_def)
qed

lemma members_mk_dup:
  assumes "h \<noteq> []"
  shows "set (members (mk_dup E h)) = set h"
  using first_newest_mem [OF assms, of E] by (auto simp: members_def mk_dup_def)

lemma length_members_mk_dup:
  assumes "h \<noteq> []" and "distinct h"
  shows "length (members (mk_dup E h)) = length h"
proof -
  have kp: "first_newest E h \<in> set h" using assms(1) by (rule first_newest_mem)
  have "filter (\<lambda>p. p \<noteq> first_newest E h) h = remove1 (first_newest E h) h"
    using assms(2) by (simp add: distinct_remove1_removeAll removeAll_filter_not_eq) metis
  then have "length (filter (\<lambda>p. p \<noteq> first_newest E h) h) = length h - 1"
    using kp by (simp add: length_remove1)
  then show ?thesis using assms(1) by (cases h) (simp_all add: members_def mk_dup_def)
qed

lemma group_dups_members:
  assumes "d \<in> set (group_dups E g)"
  shows "set (members d) \<subseteq> set g"
proof -
  from assms obtain h where h: "h \<in> snd ` set (hash_group E g [])" and l: "length h > 1"
    and d: "d = mk_dup E h"
    by (auto simp: group_dups_def split: if_splits)
  from l have "h \<noteq> []" by auto
  then have "set (members d) = set h" using d by (simp add: members_mk_dup)
  moreover have "set h \<subseteq> set g" using h hash_group_subset by force
  ultimately show ?thesis by simp
qed

lemma fill_same:
  "\<forall>x\<in>set xs. kf x = Some k \<Longrightarrow> fill kf xs [(k, ys)] = [(k, ys @ xs)]"
  by (induction xs arbitrary: ys) simp_all

lemma fill_all_same:
  assumes "\<forall>x\<in>set xs. kf x = Some k" and "xs \<noteq> []"
  shows "fill kf xs [] = [(k, xs)]"
proof -
  from assms(2) obtain x xs' where xs: "xs = x # xs'" by (cases xs) auto
  then show ?thesis using assms(1) fill_same [of xs' kf k "[x]"] by simp
qed

lemma group_dups_identical:
  assumes "\<forall>f\<in>set g. read_bytes E f = Some content" and "2 \<le> length g"
  shows "group_dups E g = [mk_dup E g]"
proof -
  have "\<forall>f\<in>set g. sha256 E f = Some (hexdigest E (concat (read_chunks (1024 * 1024) content)))"
    using assms(1) by (simp add: sha256_def)
  moreover have "g \<noteq> []" using assms(2) by auto
  ultimately have "hash_group E g [] =
      [(hexdigest E (concat (read_chunks (1024 * 1024) content)), g)]"
    unfolding hash_group_fill by (rule fill_all_same)
  then show ?thesis using assms(2) by (simp add: group_dups_def)
qed

lemma filter_concat_empty:
  "\<forall>x\<in>set xs. filter P (f x) = [] \<Longrightarrow> filter P (concat (map f xs)) = []"
  by (induction xs) simp_all

lemma dup_worker_result:
  assumes listing: "iter_files E base include_sub = Inr listed"
    and nonempty: "scanned_files E listed images_only \<noteq> []"
    and nostop: "\<forall>i. \<not> stop i"
  shows "result_dups (duplicate_scan_worker stop E base include_sub images_only use_phash
            perceptual_threshold) =
         Some (concat (map (group_dups E) (size_buckets E (scanned_files E listed images_only))))"
proof -
  let ?b = "size_buckets E (scanned_files E listed images_only)"
  have "snd (scan_groups stop E (length ?b) 0 ?b []) = Inr ([] @ concat (map (group_dups E) ?b))"
    using nostop size_buckets_stat by (rule scan_groups_result)
  then show ?thesis
    by (simp add: dup_worker_unfold [OF listing nonempty] result_dups_scan)
qed

lemma bucket_dups_only:
  assumes dist: "distinct (map fst sm)"
    and mem: "(sz, bucket) \<in> set sm"
    and other: "\<forall>(k, b)\<in>set sm. k \<noteq> sz \<longrightarrow> set b \<inter> set bucket = {}"
    and one: "group_dups E bucket = [d0]"
    and touch: "set (members d0) \<inter> set bucket \<noteq> {}"
  shows "filter (\<lambda>d. set (members d) \<inter> set bucket \<noteq> {}) (concat (map (group_dups E) (map snd sm)))
           = [d0]"
proof -
  let ?P = "\<lambda>d. set (members d) \<inter> set bucket \<noteq> {}"
  from mem obtain pre post where sp: "sm = pre @ (sz, bucket) # post"
    by (auto dest: split_list)
  have away: "filter ?P (group_dups E (snd kb)) = []" if "kb \<in> set pre \<union> set post" for kb
  proof -
    obtain k b where kb: "kb = (k, b)" by (cases kb)
    have "k \<noteq> sz" using that dist sp kb by force
    moreover have "(k, b) \<in> set sm" using that sp kb by auto
    ultimately have "set b \<inter> set bucket = {}" using other by blast
    then have "\<forall>d\<in>set (group_dups E b). \<not> ?P d"
      using group_dups_members [of _ E b] by blast
    then show ?thesis using kb by (simp add: filter_empty_conv)
  qed
  have "filter ?P (concat (map (group_dups E) (map snd pre))) = []"
    unfolding map_map by (rule filter_concat_empty) (simp add: away)
  moreover have "filter ?P (concat (map (group_dups E) (map snd post))) = []"
    unfolding map_map by (rule filter_concat_empty) (simp add: away)
  ultimately show ?thesis using one touch by (simp add: sp)
qed

lemma mtime_first_newest:
  assumes "h \<noteq> []"
  shows "mtime_of E (first_newest E h) = Max (mtime_of E ` set h)"
proof -
  have "Max (mtime_of E ` set h) \<in> mtime_of E ` set h"
    using assms by (intro Max_in) auto
  then obtain p where "p \<in> set h" and "mtime_of E p = Max (mtime_of E ` set h)"
    by auto
  then have ne: "filter (\<lambda>p. mtime_of E p = Max (mtime_of E ` set h)) h \<noteq> []"
    by (auto simp: filter_empty_conv)
  have "hd (filter (\<lambda>p. mtime_of E p = Max (mtime_of E ` set h)) h)
      \<in> set (filter (\<lambda>p. mtime_of E p = Max (mtime_of E ` set h)) h)"
    using ne by (rule hd_in_set)
  then show ?thesis by (simp add: first_newest_def)
qed

lemma group_dups_invariant:
  assumes "distinct g" and "d \<in> set (group_dups E g)"
  shows "2 \<le> length (members d) \<and> keep d \<in> set (members d) \<and> keep d \<notin> set (delete d)"
proof -
  from assms(2) obtain k h where h: "(k, h) \<in> set (hash_group E g [])" and l: "length h > 1"
    and d: "d = mk_dup E h"
    by (auto simp: group_dups_def split: if_splits)
  from h have "h = filter (\<lambda>x. sha256 E x = Some k) g"
    by (simp add: hash_group_fill fill_empty_iff)
  then have dh: "distinct h" using assms(1) by simp
  from l have ne: "h \<noteq> []" by auto
  have "length (members d) = length h"
    using d length_members_mk_dup [OF ne dh] by simp
  then show ?thesis using l d by (simp add: members_def mk_dup_def)
qed

text \<open>
  C2. In a duplicate scan that is not cancelled, over a listing without repeated paths,
  let \<open>bucket\<close> be the files of one byte size \<open>sz\<close>, in the order of the listing. If
  the bucket has at least two files and all of them have the same content, then among
  the duplicate groups delivered to the result callback exactly one has a member in
  the bucket; its members are the files of the bucket, as many as the bucket has; its
  \<open>keep\<close> has the largest modification time of the bucket and is the first file of the
  bucket with that time. Every delivered group has at least two members, and its
  \<open>keep\<close> is a member that is not among its \<open>delete\<close> candidates.
\<close>

theorem identical_bucket_one_group:
  fixes E :: "'v env"
  defines "bucket_of \<equiv> \<lambda>files sz. filter (\<lambda>f. size_of E f = Some sz) files"
  assumes listing: "iter_files E base include_sub = Inr listed"
    and dist: "distinct (scanned_files E listed images_only)"
    and nostop: "\<forall>i. \<not> stop i"
    and two: "2 \<le> length (bucket_of (scanned_files E listed images_only) sz)"
    and same: "\<forall>f\<in>set (bucket_of (scanned_files E listed images_only) sz).
                 read_bytes E f = Some content"
  shows "\<exists>dups d0.
      result_dups (duplicate_scan_worker stop E base include_sub images_only use_phash
                     perceptual_threshold) = Some dups \<and>
      filter (\<lambda>d. set (members d) \<inter> set (bucket_of (scanned_files E listed images_only) sz) \<noteq> {})
        dups = [d0] \<and>
      set (members d0) = set (bucket_of (scanned_files E listed images_only) sz) \<and>
      length (members d0) = length (bucket_of (scanned_files E listed images_only) sz) \<and>
      keep d0 = first_newest E (bucket_of (scanned_files E listed images_only) sz) \<and>
      (\<forall>f\<in>set (bucket_of (scanned_files E listed images_only) sz).
          mtime_of E f \<le> mtime_of E (keep d0)) \<and>
      (\<forall>d\<in>set dups. 2 \<le> length (members d) \<and> keep d \<in> set (members d) \<and>
          keep d \<notin> set (delete d))"
proof -
  let ?files = "scanned_files E listed images_only"
  let ?bucket = "bucket_of ?files sz"
  let ?sm = "build_size_map E ?files []"
  let ?dups = "concat (map (group_dups E) (size_buckets E ?files))"
  let ?d0 = "mk_dup E ?bucket"
  have ne: "?bucket \<noteq> []" using two by auto
  then have fne: "?files \<noteq> []" by (auto simp: bucket_of_def)
  have db: "distinct ?bucket" using dist by (simp add: bucket_of_def)
  have res: "result_dups (duplicate_scan_worker stop E base include_sub images_only use_phash
                     perceptual_threshold) = Some ?dups"
    using listing fne nostop by (rule dup_worker_result)
  have dsm: "distinct (map fst ?sm)"
    unfolding build_size_map_fill by (rule distinct_fill) simp
  have mem: "(sz, ?bucket) \<in> set ?sm"
    using ne by (simp add: build_size_map_fill fill_empty_iff bucket_of_def)
  have other: "\<forall>(k, b)\<in>set ?sm. k \<noteq> sz \<longrightarrow> set b \<inter> set ?bucket = {}"
    by (auto simp: build_size_map_fill fill_empty_iff bucket_of_def)
  have one: "group_dups E ?bucket = [?d0]"
    using same two by (rule group_dups_identical)
  have mem0: "set (members ?d0) = set ?bucket"
    using ne by (rule members_mk_dup)
  have touch: "set (members ?d0) \<inter> set ?bucket \<noteq> {}"
    using mem0 ne by simp
  have only: "filter (\<lambda>d. set (members d) \<inter> set ?bucket \<noteq> {}) ?dups = [?d0]"
    unfolding size_buckets_def using dsm mem other one touch by (rule bucket_dups_only)
  have len0: "length (members ?d0) = length ?bucket"
    using ne db by (rule length_members_mk_dup)
  have keep0: "keep ?d0 = first_newest E ?bucket"
    by (simp add: mk_dup_def)
  have newest: "\<forall>f\<in>set ?bucket. mtime_of E f \<le> mtime_of E (keep ?d0)"
    unfolding keep0 mtime_first_newest [OF ne] by simp
  have inv: "\<forall>d\<in>set ?dups. 2 \<le> length (members d) \<and> keep d \<in> set (members d) \<and>
      keep d \<notin> set (delete d)"
  proof
    fix d
    assume "d \<in> set ?dups"
    then obtain g where g: "g \<in> set (size_buckets E ?files)" and d: "d \<in> set (group_dups E g)"
      by auto
    from g obtain k where "g = filter (\<lambda>f. size_of E f = Some k) ?files"
      by (auto simp: size_buckets_iff)
    then have "distinct g" using dist by simp
    then show "2 \<le> length (members d) \<and> keep d \<in> set (members d) \<and> keep d \<notin> set (delete d)"
      using d by (rule group_dups_invariant)
  qed
  show ?thesis
    using res only mem0 len0 keep0 newest inv by blast
qed

lemma demo_listing: "iter_files demo_env [''d''] False = Inr demo_files"
  by (simp add: iter_files_def demo_env_def)

lemma demo_bucket:
  "filter (\<lambda>f. size_of demo_env f = Some 1024) demo_files = [[''d'', ''a.JPG''], [''d'', ''b.jpg'']]"
  by (simp add: demo_files_def size_of_def demo_env_def)

lemma demo_first_newest: "first_newest demo_env [[''d'', ''a.JPG''], [''d'', ''b.jpg'']] = [''d'', ''b.jpg'']"
  by (simp add: first_newest_def mtime_of_def demo_env_def)

theorem identical_bucket_one_group_witness:
  "iter_files demo_env [''d''] False = Inr demo_files \<and>
   distinct (scanned_files demo_env demo_files False) \<and>
   (\<forall>i. \<not> (\<lambda>i::nat. False) i) \<and>
   filter (\<lambda>f. size_of demo_env f = Some 1024) (scanned_files demo_env demo_files False) =
     [[''d'', ''a.JPG''], [''d'', ''b.jpg'']] \<and>
   read_bytes demo_env [''d'', ''a.JPG''] = Some ''xx'' \<and>
   read_bytes demo_env [''d'', ''b.jpg''] = Some ''xx'' \<and>
   (\<exists>dups d0.
      result_dups (duplicate_scan_worker (\<lambda>i. False) demo_env [''d''] False False True 10) = Some dups \<and>
      filter (\<lambda>d. set (members d) \<inter> set [[''d'', ''a.JPG''], [''d'', ''b.jpg'']] \<noteq> {}) dups = [d0] \<and>
      set (members d0) = set [[''d'', ''a.JPG''], [''d'', ''b.jpg'']] \<and>
      length (members d0) = length [[''d'', ''a.JPG''], [''d'', ''b.jpg'']] \<and>
      keep d0 = [''d'', ''b.jpg''] \<and>
      (\<forall>f\<in>set [[''d'', ''a.JPG''], [''d'', ''b.jpg'']]. mtime_of demo_env f \<le> mtime_of demo_env (keep d0)) \<and>
      (\<forall>d\<in>set dups. 2 \<le> length (members d) \<and> keep d \<in> set (members d) \<and>
          keep d \<notin> set (delete d)))"
proof -
  have sc: "scanned_files demo_env demo_files False = demo_files"
    by (simp add: scanned_files_def)
  have dist: "distinct (scanned_files demo_env demo_files False)"
    unfolding sc by (simp add: demo_files_def)
  have bucket: "filter (\<lambda>f. size_of demo_env f = Some 1024) (scanned_files demo_env demo_files False) =
     [[''d'', ''a.JPG''], [''d'', ''b.jpg'']]"
    by (simp only: sc demo_bucket)
  have ra: "read_bytes demo_env [''d'', ''a.JPG''] = Some ''xx''"
    by (simp add: demo_env_def)
  have rb: "read_bytes demo_env [''d'', ''b.jpg''] = Some ''xx''"
    by (simp add: demo_env_def)
  have two: "2 \<le> length (filter (\<lambda>f. size_of demo_env f = Some 1024)
      (scanned_files demo_env demo_files False))"
    by (simp only: bucket) simp
  have same: "\<forall>f\<in>set (filter (\<lambda>f. size_of demo_env f = Some 1024)
      (scanned_files demo_env demo_files False)). read_bytes demo_env f = Some ''xx''"
    by (simp only: bucket) (simp add: ra rb)
  have nostop: "\<forall>i. \<not> (\<lambda>i::nat. False) i" by simp
  note run = identical_bucket_one_group [OF demo_listing dist nostop two same, of True 10,
      unfolded bucket demo_first_newest]
  show ?thesis
    by (intro conjI demo_listing dist nostop bucket ra rb run)
qed

text \<open>
  C5. In every duplicate scan, cancelled or not: a file that is hashed has a size that at
  least two of the scanned files have, so no file of a size bucket of one file is ever
  hashed; all members of a delivered duplicate group have the same size, so no group
  holds files of two sizes; and a scan that is not cancelled emits one progress fraction
  per size bucket, \<open>1/n\<close> to \<open>n/n\<close> for \<open>n\<close> buckets, whatever the length of the bucket, so
  progress advances for the buckets of one file as well. The size buckets are the
  non-empty lists of all scanned files of one size.
\<close>

theorem hashing_within_size_buckets:
  fixes E :: "'v env"
  defines "tr \<equiv> \<lambda>stop base include_sub images_only use_phash perceptual_threshold.
     duplicate_scan_worker stop E base include_sub images_only use_phash perceptual_threshold"
  assumes listing: "iter_files E base include_sub = Inr listed"
  shows
    "(\<forall>p. Sha256 p \<in> set (tr stop base include_sub images_only use_phash perceptual_threshold) \<longrightarrow>
        (\<exists>sz. size_of E p = Some sz \<and>
           2 \<le> length (filter (\<lambda>f. size_of E f = Some sz) (scanned_files E listed images_only)))) \<and>
     (\<forall>dups d. result_dups (tr stop base include_sub images_only use_phash perceptual_threshold)
          = Some dups \<and> d \<in> set dups \<longrightarrow>
        (\<exists>sz. \<forall>p\<in>set (members d). size_of E p = Some sz)) \<and>
     ((\<forall>i. \<not> stop i) \<longrightarrow>
        progress_values (tr stop base include_sub images_only use_phash perceptual_threshold) =
          map (\<lambda>i. real (i + 1) / real (length (size_buckets E (scanned_files E listed images_only))))
            [0..<length (size_buckets E (scanned_files E listed images_only))]) \<and>
     set (size_buckets E (scanned_files E listed images_only)) =
       {b. b \<noteq> [] \<and> (\<exists>sz. b = filter (\<lambda>f. size_of E f = Some sz) (scanned_files E listed images_only))}"
proof (cases "scanned_files E listed images_only = []")
  case True
  have t: "tr stop base include_sub images_only use_phash perceptual_threshold =
      [Log ''Listing files...'', Log ''No files to scan.'', ResultDups []]"
    unfolding tr_def using listing True by (rule dup_worker_empty)
  have "size_buckets E (scanned_files E listed images_only) = []"
    by (simp add: True size_buckets_def)
  then show ?thesis by (simp add: t True)
next
  case False
  let ?files = "scanned_files E listed images_only"
  let ?b = "size_buckets E ?files"
  let ?sg = "scan_groups stop E (length ?b) 0 ?b []"
  let ?tr = "tr stop base include_sub images_only use_phash perceptual_threshold"
  obtain ds where ds: "snd ?sg = Inr ds"
    using scan_groups_returns [OF size_buckets_stat] by blast
  have t: "?tr = Log ''Listing files...'' #
      Log (''Scanning '' @ str_nat (length ?files) @ '' files for duplicates...'') #
      fst ?sg @ [ResultDups ds, Log (''Found '' @ str_nat (length ds) @ '' duplicate groups.'')]"
    unfolding tr_def by (simp add: dup_worker_unfold [OF listing False] ds)
  have a: "\<forall>p. Sha256 p \<in> set ?tr \<longrightarrow>
      (\<exists>sz. size_of E p = Some sz \<and> 2 \<le> length (filter (\<lambda>f. size_of E f = Some sz) ?files))"
  proof (intro allI impI)
    fix p
    assume "Sha256 p \<in> set ?tr"
    then have "Sha256 p \<in> set (fst ?sg)" by (simp add: t)
    then obtain g where g: "g \<in> set ?b" and l: "2 \<le> length g" and p: "p \<in> set g"
      using scan_groups_hashed by blast
    from g obtain k where k: "g = filter (\<lambda>f. size_of E f = Some k) ?files"
      by (auto simp: size_buckets_iff)
    then have "size_of E p = Some k" using p by simp
    then show "\<exists>sz. size_of E p = Some sz \<and>
        2 \<le> length (filter (\<lambda>f. size_of E f = Some sz) ?files)"
      using l k by auto
  qed
  have b: "\<forall>dups d. result_dups ?tr = Some dups \<and> d \<in> set dups \<longrightarrow>
      (\<exists>sz. \<forall>p\<in>set (members d). size_of E p = Some sz)"
  proof (intro allI impI)
    fix dups d
    assume asm: "result_dups ?tr = Some dups \<and> d \<in> set dups"
    then have "dups = ds" by (simp add: t result_dups_scan)
    then have "d \<in> set ds" using asm by simp
    from scan_groups_members [OF ds this] obtain g h where g: "g \<in> set ?b"
      and h: "h \<in> snd ` set (hash_group E g [])" and kp: "keep d \<in> set h"
      and del: "delete d = filter (\<lambda>p. p \<noteq> keep d) h" by auto
    from g obtain k where k: "g = filter (\<lambda>f. size_of E f = Some k) ?files"
      by (auto simp: size_buckets_iff)
    have "set h \<subseteq> set g" using h hash_group_subset by force
    then have "set (members d) \<subseteq> set g" using kp del by (auto simp: members_def)
    then have "\<forall>p\<in>set (members d). size_of E p = Some k" using k by auto
    then show "\<exists>sz. \<forall>p\<in>set (members d). size_of E p = Some sz" by (rule exI)
  qed
  have c: "(\<forall>i. \<not> stop i) \<longrightarrow>
      progress_values ?tr = map (\<lambda>i. real (i + 1) / real (length ?b)) [0..<length ?b]"
  proof
    assume ns: "\<forall>i. \<not> stop i"
    show "progress_values ?tr = map (\<lambda>i. real (i + 1) / real (length ?b)) [0..<length ?b]"
      using scan_groups_progress [OF ns size_buckets_stat, where n = "length ?b" and k = 0 and acc = "[]"]
      by (simp add: t)
  qed
  have d: "set ?b = {b. b \<noteq> [] \<and> (\<exists>sz. b = filter (\<lambda>f. size_of E f = Some sz) ?files)}"
    by (auto simp: size_buckets_iff)
  show ?thesis by (intro conjI a b c d)
qed

lemma concat_read_chunks: "0 < chunk \<Longrightarrow> concat (read_chunks chunk data) = data"
proof (induction chunk data rule: read_chunks.induct)
  case (1 chunk data)
  show ?case
  proof (cases "take chunk data = []")
    case True
    then have "data = []" using "1.prems" by (cases data) simp_all
    then show ?thesis by (subst read_chunks.simps) simp
  next
    case False
    then have "concat (read_chunks chunk data) = take chunk data @ concat (read_chunks chunk (drop chunk data))"
      by (subst read_chunks.simps) simp
    also have "\<dots> = take chunk data @ drop chunk data"
      using "1.IH" [OF False "1.prems"] by simp
    finally show ?thesis by simp
  qed
qed

lemma sha256_eq: "sha256 E p = map_option (hexdigest E) (read_bytes E p)"
  by (simp add: sha256_def concat_read_chunks split: option.splits)

lemma demo_size_map:
  "build_size_map demo_env demo_files [] =
     [(1024, [[''d'', ''a.JPG''], [''d'', ''b.jpg'']]), (50, [[''d'', ''c.txt'']])]"
  by (simp add: demo_files_def demo_env_def)

lemma demo_hash_group:
  "hash_group demo_env [[''d'', ''a.JPG''], [''d'', ''b.jpg'']] [] =
     [(''xx'', [[''d'', ''a.JPG''], [''d'', ''b.jpg'']])]"
  by (simp add: sha256_eq demo_env_def)

lemma demo_collect:
  "collect_dups demo_env [[[''d'', ''a.JPG''], [''d'', ''b.jpg'']]] [] =
     Inr [\<lparr>keep = [''d'', ''b.jpg''], delete = [[''d'', ''a.JPG'']], reason = ''exact''\<rparr>]"
  by (simp add: max_mtime_def demo_env_def)

lemma demo_scan_groups:
  "scan_groups (\<lambda>i. False) demo_env (Suc (Suc 0)) 0 [[[''d'', ''a.JPG''], [''d'', ''b.jpg'']], [[''d'', ''c.txt'']]] [] =
     ([Sha256 [''d'', ''a.JPG''], Sha256 [''d'', ''b.jpg''], Progress (1 / 2), Progress 1],
      Inr [\<lparr>keep = [''d'', ''b.jpg''], delete = [[''d'', ''a.JPG'']], reason = ''exact''\<rparr>])"
  by (simp add: demo_hash_group demo_collect del: hash_group.simps collect_dups.simps)

lemma demo_dup_trace:
  "duplicate_scan_worker (\<lambda>i. False) demo_env [''d''] False False use_phash perceptual_threshold =
     [Log ''Listing files...'', Log ''Scanning 5 files for duplicates...'',
      Sha256 [''d'', ''a.JPG''], Sha256 [''d'', ''b.jpg''], Progress (1 / 2), Progress 1,
      ResultDups [\<lparr>keep = [''d'', ''b.jpg''], delete = [[''d'', ''a.JPG'']], reason = ''exact''\<rparr>],
      Log ''Found 1 duplicate groups.'']"
proof -
  have n5: "str_nat 5 = ''5''" by (simp add: str_nat.simps)
  have n1: "str_nat (Suc 0) = ''1''" by (simp add: str_nat.simps)
  have len: "length demo_files = 5" by (simp add: demo_files_def)
  have ne: "demo_files \<noteq> []" by (simp add: demo_files_def)
  show ?thesis
    by (simp add: duplicate_scan_worker_def demo_listing demo_size_map demo_scan_groups len ne n5 n1
        del: scan_groups.simps build_size_map.simps)
qed

theorem hashing_within_size_buckets_witness:
  "iter_files demo_env [''d''] False = Inr demo_files \<and>
   size_buckets demo_env (scanned_files demo_env demo_files False) =
     [[[''d'', ''a.JPG''], [''d'', ''b.jpg'']], [[''d'', ''c.txt'']]] \<and>
   Sha256 [''d'', ''a.JPG''] \<in> set (duplicate_scan_worker (\<lambda>i. False) demo_env [''d''] False False True 10) \<and>
   (\<exists>sz. size_of demo_env [''d'', ''a.JPG''] = Some sz \<and>
      2 \<le> length (filter (\<lambda>f. size_of demo_env f = Some sz) (scanned_files demo_env demo_files False))) \<and>
   size_of demo_env [''d'', ''c.txt''] = Some 50 \<and>
   length (filter (\<lambda>f. size_of demo_env f = Some 50) (scanned_files demo_env demo_files False)) = 1 \<and>
   Sha256 [''d'', ''c.txt''] \<notin> set (duplicate_scan_worker (\<lambda>i. False) demo_env [''d''] False False True 10) \<and>
   progress_values (duplicate_scan_worker (\<lambda>i. False) demo_env [''d''] False False True 10) = [1 / 2, 1]"
proof -
  let ?tr = "duplicate_scan_worker (\<lambda>i. False) demo_env [''d''] False False True 10"
  note inst = hashing_within_size_buckets [OF demo_listing, of "\<lambda>i. False" False True 10]
  have sc: "scanned_files demo_env demo_files False = demo_files"
    by (simp add: scanned_files_def)
  have b: "size_buckets demo_env (scanned_files demo_env demo_files False) =
     [[[''d'', ''a.JPG''], [''d'', ''b.jpg'']], [[''d'', ''c.txt'']]]"
    by (simp only: sc size_buckets_def demo_size_map) simp
  have h: "Sha256 [''d'', ''a.JPG''] \<in> set ?tr"
    by (simp add: demo_dup_trace)
  have a: "\<exists>sz. size_of demo_env [''d'', ''a.JPG''] = Some sz \<and>
      2 \<le> length (filter (\<lambda>f. size_of demo_env f = Some sz) (scanned_files demo_env demo_files False))"
    using inst [THEN conjunct1, rule_format, OF h] .
  have s50: "size_of demo_env [''d'', ''c.txt''] = Some 50"
    by (simp add: size_of_def demo_env_def)
  have l50: "length (filter (\<lambda>f. size_of demo_env f = Some 50) (scanned_files demo_env demo_files False)) = 1"
    unfolding sc by (simp add: demo_files_def size_of_def demo_env_def)
  have nh: "Sha256 [''d'', ''c.txt''] \<notin> set ?tr"
  proof
    assume "Sha256 [''d'', ''c.txt''] \<in> set ?tr"
    from inst [THEN conjunct1, rule_format, OF this] obtain sz where
      "size_of demo_env [''d'', ''c.txt''] = Some sz" and
      "2 \<le> length (filter (\<lambda>f. size_of demo_env f = Some sz) (scanned_files demo_env demo_files False))"
      by (elim exE conjE)
    then show False using s50 l50 by simp
  qed
  have ns: "\<forall>i. \<not> (\<lambda>i::nat. False) i" by simp
  have "progress_values ?tr =
      map (\<lambda>i. real (i + 1) / real (length (size_buckets demo_env (scanned_files demo_env demo_files False))))
        [0..<length (size_buckets demo_env (scanned_files demo_env demo_files False))]"
    using inst [THEN conjunct2, THEN conjunct2, THEN conjunct1, THEN mp, OF ns] .
  then have p: "progress_values ?tr = [1 / 2, 1]"
    by (simp only: b) (simp add: upt_rec)
  show ?thesis
    by (intro conjI demo_listing b h a s50 l50 nh p)
qed

text \<open>
  C7. The events of a duplicate scan, and with them the duplicate groups delivered to the
  result callback, do not depend on the flag \<open>use_phash\<close> nor on \<open>perceptual_threshold\<close>:
  two runs that differ only in these two arguments give the same events. The worker
  never reads either argument.
\<close>

theorem perceptual_arguments_ignored:
  "duplicate_scan_worker stop E base include_sub images_only use_phash perceptual_threshold =
     duplicate_scan_worker stop E base include_sub images_only use_phash' perceptual_threshold' \<and>
   result_dups (duplicate_scan_worker stop E base include_sub images_only use_phash perceptual_threshold) =
     result_dups (duplicate_scan_worker stop E base include_sub images_only use_phash' perceptual_threshold')"
  by (simp add: duplicate_scan_worker_def)

theorem perceptual_arguments_ignored_witness:
  "duplicate_scan_worker (\<lambda>i. False) demo_env [''d''] False False True 10 =
     duplicate_scan_worker (\<lambda>i. False) demo_env [''d''] False False False 0 \<and>
   result_dups (duplicate_scan_worker (\<lambda>i. False) demo_env [''d''] False False False 0) =
     Some [\<lparr>keep = [''d'', ''b.jpg''], delete = [[''d'', ''a.JPG'']], reason = ''exact''\<rparr>]"
proof -
  have "result_dups (duplicate_scan_worker (\<lambda>i. False) demo_env [''d''] False False True 10) =
     Some [\<lparr>keep = [''d'', ''b.jpg''], delete = [[''d'', ''a.JPG'']], reason = ''exact''\<rparr>]"
    by (simp add: demo_dup_trace)
  then show ?thesis
    using perceptual_arguments_ignored [of "\<lambda>i. False" demo_env "[''d'']" False False True 10 False 0]
    by simp
qed

lemma polls_le: "polls stop k n \<le> n"
  by (induction n arbitrary: k) simp_all

lemma polls_all: "(\<forall>i. k \<le> i \<and> i < k + n \<longrightarrow> \<not> stop i) \<Longrightarrow> polls stop k n = n"
  by (induction n arbitrary: k) simp_all

lemma polls_some: "\<exists>i. k \<le> i \<and> i < k + n \<and> stop i \<Longrightarrow> polls stop k n < n"
proof (induction n arbitrary: k)
  case 0
  then show ?case by auto
next
  case (Suc n)
  show ?case
  proof (cases "stop k")
    case True
    then show ?thesis by simp
  next
    case False
    from Suc.prems obtain i where i: "k \<le> i" "i < k + Suc n" "stop i" by blast
    with False have "i \<noteq> k" by auto
    with i have "\<exists>i. Suc k \<le> i \<and> i < Suc k + n \<and> stop i"
      by (intro exI [of _ i]) simp
    from Suc.IH [OF this] show ?thesis using False by simp
  qed
qed

lemma count_list_append_one: "count_list (xs @ ys) x = count_list xs x + count_list ys x"
  by (induction xs) simp_all

lemma count_fractions:
  "m \<le> n \<Longrightarrow>
     count_list (map (\<lambda>i. real (i + 1) / real n) [0..<m]) 1 = (if m = n \<and> 0 < n then 1 else 0)"
proof (induction m)
  case 0
  then show ?case by auto
next
  case (Suc m)
  then have less: "m < n" and IH: "count_list (map (\<lambda>i. real (i + 1) / real n) [0..<m]) 1 = 0"
    by simp_all
  have "real (m + 1) / real n = 1 \<longleftrightarrow> Suc m = n"
    using less by (simp add: field_simps) linarith
  then show ?case
    using IH less by (simp add: count_list_append_one)
qed

lemma transfer_cases [case_names failed moved copied]:
  obtains e fs' where "fst (transfer E fs move_mode f dst) = [Log (''Error '' @ name f @ '': '' @ e)]"
  | d where "move_mode" and "fst (transfer E fs move_mode f dst) = [Move f d, Log (''Moved: '' @ name f)]"
      and "fst (safe_move E fs f dst) = Inr d"
  | d where "\<not> move_mode" and "fst (transfer E fs move_mode f dst) = [Copy2 f d, Log (''Copied: '' @ name f)]"
      and "fst (safe_copy E fs f dst) = Inr d"
proof (cases move_mode)
  case True
  obtain r fs' where r: "safe_move E fs f dst = (r, fs')" by (cases "safe_move E fs f dst")
  show ?thesis
  proof (cases r)
    case (Inl e)
    then show ?thesis using True r that(1) by (simp add: transfer_def)
  next
    case (Inr d)
    then show ?thesis using True r that(2) by (simp add: transfer_def)
  qed
next
  case False
  obtain r fs' where r: "safe_copy E fs f dst = (r, fs')" by (cases "safe_copy E fs f dst")
  show ?thesis
  proof (cases r)
    case (Inl e)
    then show ?thesis using False r that(1) by (simp add: transfer_def)
  next
    case (Inr d)
    then show ?thesis using False r that(3) by (simp add: transfer_def)
  qed
qed

lemma sort_item_cases [case_names failed moved copied]:
  obtains e where
      "fst (sort_item E fs base move_mode groups_selected exif_by_date f) =
         [Log (''Error '' @ name f @ '': '' @ e)]"
  | d where "move_mode" and
      "fst (sort_item E fs base move_mode groups_selected exif_by_date f) =
         [Move f d, Log (''Moved: '' @ name f)]"
  | d where "\<not> move_mode" and
      "fst (sort_item E fs base move_mode groups_selected exif_by_date f) =
         [Copy2 f d, Log (''Copied: '' @ name f)]"
proof (cases "sort_target E base groups_selected exif_by_date f")
  case (Inl e)
  then show ?thesis using that(1) by (simp add: sort_item_def)
next
  case (Inr dst)
  then have eq: "sort_item E fs base move_mode groups_selected exif_by_date f =
      transfer E fs move_mode f dst" by (simp add: sort_item_def)
  show ?thesis
    by (cases rule: transfer_cases [where E = E and fs = fs and move_mode = move_mode and f = f
          and dst = dst]) (use eq that in auto)
qed

lemma sort_item_progress [simp]:
  "progress_values (fst (sort_item E fs base move_mode groups_selected exif_by_date f)) = []"
  by (cases rule: sort_item_cases [where E = E and fs = fs and base = base and move_mode = move_mode
        and groups_selected = groups_selected and exif_by_date = exif_by_date and f = f]) simp_all

lemma sort_item_logs:
  "length (log_lines (fst (sort_item E fs base move_mode groups_selected exif_by_date f))) = 1"
  by (cases rule: sort_item_cases [where E = E and fs = fs and base = base and move_mode = move_mode
        and groups_selected = groups_selected and exif_by_date = exif_by_date and f = f]) simp_all

lemma sort_item_no_raise:
  "Raise e \<notin> set (fst (sort_item E fs base move_mode groups_selected exif_by_date f))"
  by (cases rule: sort_item_cases [where E = E and fs = fs and base = base and move_mode = move_mode
        and groups_selected = groups_selected and exif_by_date = exif_by_date and f = f]) simp_all

lemma sort_loop_step:
  "\<not> stop k \<Longrightarrow>
     sort_loop stop E base move_mode groups_selected exif_by_date total' k (f # rest) fs =
       fst (sort_item E fs base move_mode groups_selected exif_by_date f) @
       Progress (real (k + 1) / real total') #
       sort_loop stop E base move_mode groups_selected exif_by_date total' (k + 1) rest
         (snd (sort_item E fs base move_mode groups_selected exif_by_date f))"
  by (simp add: case_prod_unfold)

lemma sort_loop_stopped:
  "stop k \<Longrightarrow>
     sort_loop stop E base move_mode groups_selected exif_by_date total' k (f # rest) fs =
       [Log ''Sorting cancelled.'']"
  by simp

lemma upt_polls_step: "[k..<k + Suc n] = k # [Suc k..<Suc k + n]"
  by (subst upt_rec) simp

lemma fractions_step:
  "\<not> stop k \<Longrightarrow>
     map g [k..<k + polls stop k (Suc n)] = g k # map g [Suc k..<Suc k + polls stop (Suc k) n]"
proof -
  assume "\<not> stop k"
  then have "polls stop k (Suc n) = Suc (polls stop (Suc k) n)" by simp
  then show ?thesis by (simp only: upt_polls_step list.map)
qed

lemma sort_loop_progress:
  "progress_values (sort_loop stop E base move_mode groups_selected exif_by_date total' k files fs) =
     map (\<lambda>i. real (i + 1) / real total') [k..<k + polls stop k (length files)]"
proof (induction files arbitrary: k fs)
  case Nil
  show ?case by simp
next
  case (Cons f rest)
  show ?case
  proof (cases "stop k")
    case True
    then show ?thesis by simp
  next
    case False
    have "progress_values
        (sort_loop stop E base move_mode groups_selected exif_by_date total' k (f # rest) fs) =
      real (k + 1) / real total' #
      progress_values (sort_loop stop E base move_mode groups_selected exif_by_date total' (Suc k) rest
         (snd (sort_item E fs base move_mode groups_selected exif_by_date f)))"
      by (simp add: sort_loop_step [where stop = stop and k = k, OF False] del: sort_loop.simps)
    also have "\<dots> = real (k + 1) / real total' #
        map (\<lambda>i. real (i + 1) / real total') [Suc k..<Suc k + polls stop (Suc k) (length rest)]"
      by (simp only: Cons.IH)
    also have "\<dots> = map (\<lambda>i. real (i + 1) / real total') [k..<k + polls stop k (length (f # rest))]"
      by (simp only: fractions_step [where stop = stop and k = k, OF False] length_Cons)
    finally show ?thesis .
  qed
qed

lemma sort_loop_no_raise:
  "Raise e \<notin> set (sort_loop stop E base move_mode groups_selected exif_by_date total' k files fs)"
proof (induction files arbitrary: k fs)
  case Nil
  show ?case by simp
next
  case (Cons f rest)
  show ?case
  proof (cases "stop k")
    case True
    then show ?thesis by simp
  next
    case False
    then show ?thesis
      using Cons.IH [of "k + 1"] sort_item_no_raise
      by (simp only: sort_loop_step [where stop = stop and k = k, OF False]) simp
  qed
qed

lemma sort_loop_logs:
  "\<forall>i. \<not> stop i \<Longrightarrow>
     length (log_lines (sort_loop stop E base move_mode groups_selected exif_by_date total' k files fs)) =
       length files"
proof (induction files arbitrary: k fs)
  case Nil
  show ?case by simp
next
  case (Cons f rest)
  have ns: "\<not> stop k" using Cons.prems by simp
  show ?case
    using Cons.IH [OF Cons.prems, of "k + 1"] sort_item_logs
    by (simp only: sort_loop_step [where stop = stop and k = k, OF ns]) simp
qed

lemma sort_loop_item:
  "\<forall>i. \<not> stop i \<Longrightarrow> f \<in> set files \<Longrightarrow>
     \<exists>fs'. set (fst (sort_item E fs' base move_mode groups_selected exif_by_date f)) \<subseteq>
       set (sort_loop stop E base move_mode groups_selected exif_by_date total' k files fs)"
proof (induction files arbitrary: k fs)
  case Nil
  then show ?case by simp
next
  case (Cons g rest)
  have ns: "\<not> stop k" using Cons.prems by simp
  show ?case
  proof (cases "f = g")
    case True
    show ?thesis
      by (rule exI [of _ fs]) (simp only: sort_loop_step [where stop = stop and k = k, OF ns] True, auto)
  next
    case False
    then have "f \<in> set rest" using Cons.prems by simp
    from Cons.IH [OF Cons.prems(1) this, of "k + 1"
        "snd (sort_item E fs base move_mode groups_selected exif_by_date g)"]
    obtain fs' where "set (fst (sort_item E fs' base move_mode groups_selected exif_by_date f)) \<subseteq>
       set (sort_loop stop E base move_mode groups_selected exif_by_date total' (k + 1) rest
         (snd (sort_item E fs base move_mode groups_selected exif_by_date g)))" by blast
    then show ?thesis
      by (intro exI [of _ fs']) (simp only: sort_loop_step [where stop = stop and k = k, OF ns], auto)
  qed
qed

lemma parent_path_join [simp]: "parent (path_join p s) = p"
  by (simp add: parent_def path_join_def)

lemma name_path_join [simp]: "name (path_join p s) = s"
  by (simp add: name_def path_join_def)

lemma parent_candidate [simp]: "parent (candidate dest i) = parent dest"
  by (simp add: candidate_def)

lemma unique_loop_candidate: "\<exists>j. unique_loop fs dest i = candidate dest j"
proof (induction fs dest i rule: unique_loop.induct)
  case (1 fs dest i)
  show ?case
  proof (cases "path_exists fs (candidate dest i)")
    case True
    then show ?thesis using "1.IH" by (subst unique_loop.simps) simp
  next
    case False
    then show ?thesis by (subst unique_loop.simps) auto
  qed
qed

lemma parent_unique_dest [simp]: "parent (unique_dest fs dest) = parent dest"
proof (cases "path_exists fs dest")
  case True
  obtain j where "unique_loop fs dest 1 = candidate dest j"
    using unique_loop_candidate by blast
  then show ?thesis using True by (simp add: unique_dest_def)
next
  case False
  then show ?thesis by (simp add: unique_dest_def)
qed

lemma safe_copy_parent: "fst (safe_copy E fs src dst) = Inr d \<Longrightarrow> parent d = parent dst"
  by (auto simp: safe_copy_def Let_def split: sum.splits option.splits)

lemma safe_move_parent: "fst (safe_move E fs src dst) = Inr d \<Longrightarrow> parent d = parent dst"
  by (auto simp: safe_move_def Let_def split: sum.splits option.splits)

lemma safe_copy_succeeds:
  "mkdir_fails E (parent dst) = None \<Longrightarrow> \<forall>d. copy2_fails E src d = None \<Longrightarrow>
     \<exists>d. fst (safe_copy E fs src dst) = Inr d"
  by (simp add: safe_copy_def mkdir_parents_def Let_def)

lemma safe_move_succeeds:
  "mkdir_fails E (parent dst) = None \<Longrightarrow> \<forall>d. move_fails E src d = None \<Longrightarrow>
     \<exists>d. fst (safe_move E fs src dst) = Inr d"
  by (simp add: safe_move_def mkdir_parents_def Let_def)

lemma transfer_parent:
  "Copy2 f d \<in> set (fst (transfer E fs move_mode f dst)) \<or>
   Move f d \<in> set (fst (transfer E fs move_mode f dst)) \<Longrightarrow> parent d = parent dst"
  by (cases rule: transfer_cases [where E = E and fs = fs and move_mode = move_mode and f = f
        and dst = dst]) (auto dest: safe_copy_parent safe_move_parent)

lemma transfer_succeeds:
  assumes "mkdir_fails E (parent dst) = None"
    and "\<forall>d. copy2_fails E f d = None" and "\<forall>d. move_fails E f d = None"
  shows "\<exists>d. parent d = parent dst \<and>
     fst (transfer E fs move_mode f dst) =
       [if move_mode then Move f d else Copy2 f d,
        Log ((if move_mode then ''Moved: '' else ''Copied: '') @ name f)]"
proof (cases move_mode)
  case True
  from safe_move_succeeds [OF assms(1) assms(3)] obtain d where
    d: "fst (safe_move E fs f dst) = Inr d" by blast
  then have "fst (transfer E fs move_mode f dst) = [Move f d, Log (''Moved: '' @ name f)]"
    using True by (cases "safe_move E fs f dst") (auto simp: transfer_def)
  then show ?thesis using True safe_move_parent [OF d] by auto
next
  case False
  from safe_copy_succeeds [OF assms(1) assms(2)] obtain d where
    d: "fst (safe_copy E fs f dst) = Inr d" by blast
  then have "fst (transfer E fs move_mode f dst) = [Copy2 f d, Log (''Copied: '' @ name f)]"
    using False by (cases "safe_copy E fs f dst") (auto simp: transfer_def)
  then show ?thesis using False safe_copy_parent [OF d] by auto
qed

lemma ensure_loop_ok: "\<forall>p. mkdir_fails E p = None \<Longrightarrow> \<exists>fs1. ensure_loop E fs base groups = Inr fs1"
  by (induction groups arbitrary: fs) (simp_all add: mkdir_def)

lemma ensure_dirs_ok: "\<forall>p. mkdir_fails E p = None \<Longrightarrow> \<exists>fs1. ensure_dirs E fs base groups = Inr fs1"
  by (simp add: ensure_dirs_def ensure_loop_ok)

lemma sort_worker_unfold:
  assumes "iter_files E base include_sub = Inr files" and "files \<noteq> []"
    and "ensure_dirs E fs base DEFAULT_FOLDERS = Inr fs1"
  shows "sort_worker stop E fs base move_mode include_sub groups_selected exif_by_date =
     Log (''Scanning '' @ str_path base @ ''...'') #
     Log (''Found '' @ str_nat (length files) @ '' files. Processing...'') #
     sort_loop stop E base move_mode groups_selected exif_by_date (length files) 0 files fs1 @
     [Progress 1, Log ''Operation complete!'']"
  using assms by (simp add: sort_worker_def Let_def)

lemma sort_worker_empty:
  assumes "iter_files E base include_sub = Inr []"
  shows "sort_worker stop E fs base move_mode include_sub groups_selected exif_by_date =
     [Log (''Scanning '' @ str_path base @ ''...''), Log ''No files found to sort in this folder.'',
      Progress 1]"
  using assms by (simp add: sort_worker_def Let_def)

lemma sort_target_others:
  assumes "groups_selected \<noteq> []" and "detect_group E f \<notin> Some ` set groups_selected"
  shows "sort_target E base groups_selected exif_by_date f =
     Inr (path_join (path_join base ''Others'') (name f))"
  using assms by (simp add: sort_target_def Let_def)

lemma matches_iff:
  "matches E c enc \<longleftrightarrow>
     encodings c \<noteq> [] \<and> Min ((\<lambda>e. face_dist E e enc) ` set (encodings c)) < face_threshold"
  by (simp add: matches_def face_distance_def Let_def)

lemma scan_clusters_none:
  "\<forall>c\<in>set cs. \<not> matches E c enc \<Longrightarrow> scan_clusters E enc p cs = (False, cs)"
  by (induction cs) simp_all

lemma scan_clusters_first:
  "i < length cs \<Longrightarrow> matches E (cs ! i) enc \<Longrightarrow> \<forall>j<i. \<not> matches E (cs ! j) enc \<Longrightarrow>
     scan_clusters E enc p cs = (True, cs[i := extended (cs ! i) enc p])"
proof (induction cs arbitrary: i)
  case Nil
  then show ?case by simp
next
  case (Cons c cs)
  show ?case
  proof (cases i)
    case 0
    then show ?thesis using Cons.prems by (simp add: extended_def)
  next
    case (Suc i')
    have nm: "\<not> matches E c enc" using Cons.prems(3) Suc by auto
    have "\<forall>j<i'. \<not> matches E (cs ! j) enc"
    proof (intro allI impI)
      fix j assume "j < i'"
      then have "Suc j < i" using Suc by simp
      then have "\<not> matches E ((c # cs) ! Suc j) enc" using Cons.prems(3) by blast
      then show "\<not> matches E (cs ! j) enc" by simp
    qed
    then have "scan_clusters E enc p cs = (True, cs[i' := extended (cs ! i') enc p])"
      using Cons.IH [of i'] Cons.prems(1,2) Suc by simp
    then show ?thesis using nm Suc by simp
  qed
qed

lemma place_encoding_first:
  "i < length cs \<Longrightarrow> matches E (cs ! i) enc \<Longrightarrow> \<forall>j<i. \<not> matches E (cs ! j) enc \<Longrightarrow>
     place_encoding E p enc cs = cs[i := extended (cs ! i) enc p]"
  by (simp add: place_encoding_def scan_clusters_first)

lemma place_encoding_none:
  "\<forall>c\<in>set cs. \<not> matches E c enc \<Longrightarrow> place_encoding E p enc cs = cs @ [fresh enc p]"
  by (simp add: place_encoding_def scan_clusters_none fresh_def)

lemma place_encoding_cases:
  obtains i where "i < length cs" and "matches E (cs ! i) enc" and "\<forall>j<i. \<not> matches E (cs ! j) enc"
      and "place_encoding E p enc cs = cs[i := extended (cs ! i) enc p]"
  | "\<forall>c\<in>set cs. \<not> matches E c enc" and "place_encoding E p enc cs = cs @ [fresh enc p]"
proof (cases "\<exists>i. i < length cs \<and> matches E (cs ! i) enc")
  case True
  then obtain i where i: "i < length cs \<and> matches E (cs ! i) enc"
    and least: "\<forall>j<i. \<not> (j < length cs \<and> matches E (cs ! j) enc)"
    unfolding exists_least_iff [of "\<lambda>i. i < length cs \<and> matches E (cs ! i) enc"] by blast
  have first: "\<forall>j<i. \<not> matches E (cs ! j) enc"
  proof (intro allI impI)
    fix j assume j: "j < i"
    then have "\<not> (j < length cs \<and> matches E (cs ! j) enc)" using least by simp
    moreover have "j < length cs" using j i by simp
    ultimately show "\<not> matches E (cs ! j) enc" by simp
  qed
  have pl: "place_encoding E p enc cs = cs[i := extended (cs ! i) enc p]"
    using i first by (intro place_encoding_first) simp_all
  show ?thesis
    by (rule that(1) [of i]) (use i first pl in simp_all)
next
  case False
  have "\<forall>c\<in>set cs. \<not> matches E c enc"
  proof
    fix c assume "c \<in> set cs"
    then obtain i where "i < length cs" and "cs ! i = c" by (auto simp: in_set_conv_nth)
    then show "\<not> matches E c enc" using False by auto
  qed
  then show ?thesis
    by (intro that(2) place_encoding_none)
qed

lemma grows_iff:
  "grows c c' \<longleftrightarrow> (\<exists>more. encodings c' = encodings c @ more) \<and> images c \<subseteq> images c'"
proof -
  have "take (length a) b = a \<longleftrightarrow> (\<exists>more. b = a @ more)" for a b :: "'a list"
  proof
    assume "take (length a) b = a"
    then have "b = a @ drop (length a) b" by (metis append_take_drop_id)
    then show "\<exists>more. b = a @ more" by (rule exI)
  next
    assume "\<exists>more. b = a @ more"
    then show "take (length a) b = a" by auto
  qed
  then show ?thesis by (simp add: grows_def)
qed

lemma grows_refl [simp]: "grows c c"
  by (simp add: grows_iff)

lemma grows_trans: "grows a b \<Longrightarrow> grows b c \<Longrightarrow> grows a c"
  by (auto simp: grows_iff)

lemma grows_extended [simp]: "grows c (extended c enc p)"
  by (auto simp: grows_iff extended_def)

lemma extends_refl [simp]: "extends cs cs"
  by (simp add: extends_def)

lemma extends_trans:
  assumes "extends a b" and "extends b c"
  shows "extends a c"
proof -
  have len: "length a \<le> length b" "length b \<le> length c"
    using assms by (simp_all add: extends_def)
  have "grows (a ! i) (c ! i)" if "i < length a" for i
  proof -
    have "grows (a ! i) (b ! i)" using assms(1) that by (simp add: extends_def)
    moreover have "grows (b ! i) (c ! i)" using assms(2) that len by (simp add: extends_def)
    ultimately show ?thesis by (rule grows_trans)
  qed
  then show ?thesis using len by (simp add: extends_def)
qed

lemma extends_place: "extends cs (place_encoding E p enc cs)"
proof (cases rule: place_encoding_cases [where cs = cs and E = E and enc = enc and p = p])
  case (1 i)
  have "grows (cs ! j) (cs[i := extended (cs ! i) enc p] ! j)" if "j < length cs" for j
    using that by (cases "j = i") simp_all
  then show ?thesis using 1(4) by (simp add: extends_def)
next
  case 2
  then show ?thesis by (simp add: extends_def nth_append)
qed

lemma inhabited_place:
  "\<forall>c\<in>set cs. inhabited c \<Longrightarrow> \<forall>c\<in>set (place_encoding E p enc cs). inhabited c"
proof (cases rule: place_encoding_cases [where cs = cs and E = E and enc = enc and p = p])
  case (1 i)
  assume inh: "\<forall>c\<in>set cs. inhabited c"
  have new: "inhabited (extended (cs ! i) enc p)" by (simp add: inhabited_def extended_def)
  have "set (cs[i := extended (cs ! i) enc p]) \<subseteq> insert (extended (cs ! i) enc p) (set cs)"
    by (rule set_update_subset_insert)
  then have "\<forall>c\<in>set (cs[i := extended (cs ! i) enc p]). inhabited c"
    using new inh by blast
  then show ?thesis using 1(4) by simp
next
  case 2
  assume "\<forall>c\<in>set cs. inhabited c"
  then show ?thesis using 2 by (simp add: inhabited_def fresh_def)
qed

lemma extends_fold_place: "extends cs (fold (place_encoding E p) encs cs)"
proof (induction encs arbitrary: cs)
  case Nil
  show ?case by simp
next
  case (Cons enc encs)
  show ?case
    using extends_trans [OF extends_place Cons.IH] by simp
qed

lemma inhabited_fold_place:
  "\<forall>c\<in>set cs. inhabited c \<Longrightarrow> \<forall>c\<in>set (fold (place_encoding E p) encs cs). inhabited c"
proof (induction encs arbitrary: cs)
  case Nil
  then show ?case by simp
next
  case (Cons enc encs)
  show ?case
    using Cons.IH [OF inhabited_place [OF Cons.prems]] by simp
qed

lemma extends_cluster_all: "extends cs (cluster_all E photos cs)"
proof (induction photos arbitrary: cs)
  case Nil
  show ?case by (simp add: cluster_all_def)
next
  case (Cons p photos)
  show ?case
    using extends_trans [OF extends_fold_place Cons.IH] by (simp add: cluster_all_def)
qed

lemma inhabited_cluster_all:
  "\<forall>c\<in>set cs. inhabited c \<Longrightarrow> \<forall>c\<in>set (cluster_all E photos cs). inhabited c"
proof (induction photos arbitrary: cs)
  case Nil
  then show ?case by (simp add: cluster_all_def)
next
  case (Cons p photos)
  show ?case
    using Cons.IH [OF inhabited_fold_place [OF Cons.prems]] by (simp add: cluster_all_def)
qed

lemma face_loop_stopped: "stop k \<Longrightarrow> face_loop stop E total' k photos cl = ([], cl)"
  by (cases photos) simp_all

lemma face_loop_step:
  "\<not> stop k \<Longrightarrow>
     face_loop stop E total' k (p # rest) cl =
       (FaceEncodings p # Progress (real (k + 1) / real total') #
          fst (face_loop stop E total' (k + 1) rest (fold (place_encoding E p) (face_encodings E p) cl)),
        snd (face_loop stop E total' (k + 1) rest (fold (place_encoding E p) (face_encodings E p) cl)))"
  by (simp add: case_prod_unfold)

lemma face_loop_clusters:
  "\<forall>i. \<not> stop i \<Longrightarrow> snd (face_loop stop E total' k photos cl) = cluster_all E photos cl"
proof (induction photos arbitrary: k cl)
  case Nil
  show ?case by (simp add: cluster_all_def)
next
  case (Cons p rest)
  have ns: "\<not> stop k" using Cons.prems by simp
  show ?case
    using Cons.IH [OF Cons.prems, of "k + 1"]
    by (simp add: face_loop_step [where stop = stop and k = k, OF ns] cluster_all_def
        del: face_loop.simps)
qed

lemma face_loop_progress:
  "progress_values (fst (face_loop stop E total' k photos cl)) =
     map (\<lambda>i. real (i + 1) / real total') [k..<k + polls stop k (length photos)]"
proof (induction photos arbitrary: k cl)
  case Nil
  show ?case by simp
next
  case (Cons p rest)
  show ?case
  proof (cases "stop k")
    case True
    then show ?thesis by simp
  next
    case False
    have "progress_values (fst (face_loop stop E total' k (p # rest) cl)) =
      real (k + 1) / real total' #
      progress_values (fst (face_loop stop E total' (Suc k) rest
         (fold (place_encoding E p) (face_encodings E p) cl)))"
      by (simp add: face_loop_step [where stop = stop and k = k, OF False] del: face_loop.simps)
    also have "\<dots> = real (k + 1) / real total' #
        map (\<lambda>i. real (i + 1) / real total') [Suc k..<Suc k + polls stop (Suc k) (length rest)]"
      by (simp only: Cons.IH)
    also have "\<dots> = map (\<lambda>i. real (i + 1) / real total') [k..<k + polls stop k (length (p # rest))]"
      by (simp only: fractions_step [where stop = stop and k = k, OF False] length_Cons)
    finally show ?thesis .
  qed
qed

lemma copy_images_progress [simp]:
  "progress_values (fst (copy_images E fs p_dir imgs img_list)) = []"
proof (induction imgs arbitrary: fs img_list)
  case Nil
  show ?case by simp
next
  case (Cons img rest)
  show ?case
  proof (cases "copy2_fails E img (unique_dest fs (path_join p_dir (name img)))")
    case None
    then show ?thesis using Cons.IH by (simp add: Let_def case_prod_unfold)
  next
    case (Some e)
    then show ?thesis by (simp add: Let_def)
  qed
qed

lemma demo_cluster_two:
  "cluster_all demo_env [[''d'', ''b.jpg'']] [] = [fresh (1 / 10) [''d'', ''b.jpg''], fresh 5 [''d'', ''b.jpg'']]"
  by (simp add: cluster_all_def demo_env_def place_encoding_def matches_def face_distance_def fresh_def
      face_threshold_def)

lemma str_nat_small:
  "str_nat 0 = ''0''" "str_nat (Suc 0) = ''1''" "str_nat 2 = ''2''" "str_nat 5 = ''5''"
  by (simp_all add: str_nat.simps)

lemma demo_ensure_dirs:
  "ensure_dirs E [] [''d''] DEFAULT_FOLDERS =
     (if \<forall>g\<in>set DEFAULT_FOLDERS. mkdir_fails E [''d'', g] = None
      then Inr (rev (map (\<lambda>g. [''d'', g]) DEFAULT_FOLDERS))
      else ensure_dirs E [] [''d''] DEFAULT_FOLDERS)"
  by (simp add: ensure_dirs_def DEFAULT_FOLDERS_def mkdir_def path_join_def)

lemma one_file_listing: "iter_files one_file_env [''d''] False = Inr [[''d'', ''c.txt'']]"
  by (simp add: iter_files_def one_file_env_def demo_env_def)

lemma one_file_group: "detect_group one_file_env [''d'', ''c.txt''] = Some ''Documents''"
  by code_simp

lemma one_file_dirs:
  "ensure_dirs one_file_env [] [''d''] DEFAULT_FOLDERS =
     Inr (rev (map (\<lambda>g. [''d'', g]) DEFAULT_FOLDERS))"
  by (subst demo_ensure_dirs) (simp add: one_file_env_def demo_env_def)

lemma one_file_item:
  "fst (sort_item one_file_env (rev (map (\<lambda>g. [''d'', g]) DEFAULT_FOLDERS)) [''d''] False [] True
     [''d'', ''c.txt'']) =
   [Copy2 [''d'', ''c.txt''] [''d'', ''Documents'', ''c.txt''], Log ''Copied: c.txt'']"
proof -
  have t: "sort_target one_file_env [''d''] [] True [''d'', ''c.txt''] = Inr [''d'', ''Documents'', ''c.txt'']"
    by (simp add: sort_target_def one_file_group path_join_def name_def)
  have m: "mkdir_fails one_file_env p = None" for p
    by (simp add: one_file_env_def demo_env_def)
  have c: "copy2_fails one_file_env s d = None" for s d
    by (simp add: one_file_env_def demo_env_def)
  have u: "unique_dest ([[''d''], [''d'', ''Documents'']] @ rev (map (\<lambda>g. [''d'', g]) DEFAULT_FOLDERS))
      [''d'', ''Documents'', ''c.txt''] = [''d'', ''Documents'', ''c.txt'']"
    by (simp add: unique_dest_def path_exists_def DEFAULT_FOLDERS_def)
  have p: "mkdir_parents one_file_env fs [''d'', ''Documents''] = Inr ([[''d''], [''d'', ''Documents'']] @ fs)" for fs
    by (simp add: mkdir_parents_def m upt_rec)
  show ?thesis
    by (simp add: sort_item_def t transfer_def safe_copy_def parent_def p u c Let_def
        del: append.simps) (simp add: name_def)
qed

text \<open>
  The sort of the directory that holds \<^verbatim>\<open>c.txt\<close> alone, not cancelled: the progress value
  1.0 is emitted twice, as the fraction 1/1 of the file and by the call after the loop. So
  ``exactly once per run'' does not hold of a sort that completes.
\<close>

theorem sort_success_counterexample:
  "sort_worker (\<lambda>i. False) one_file_env [] [''d''] False False [] True =
     [Log ''Scanning /d...'', Log ''Found 1 files. Processing...'',
      Copy2 [''d'', ''c.txt''] [''d'', ''Documents'', ''c.txt''], Log ''Copied: c.txt'',
      Progress 1, Progress 1, Log ''Operation complete!''] \<and>
   count_list (progress_values (sort_worker (\<lambda>i. False) one_file_env [] [''d''] False False [] True)) 1 = 2"
proof -
  have ne: "[[''d'', ''c.txt'']] \<noteq> ([] :: path list)" by simp
  have tr: "sort_worker (\<lambda>i. False) one_file_env [] [''d''] False False [] True =
     [Log ''Scanning /d...'', Log ''Found 1 files. Processing...'',
      Copy2 [''d'', ''c.txt''] [''d'', ''Documents'', ''c.txt''], Log ''Copied: c.txt'',
      Progress 1, Progress 1, Log ''Operation complete!'']"
    by (simp add: sort_worker_unfold [OF one_file_listing ne one_file_dirs] str_path_def
        str_nat_small case_prod_unfold one_file_item)
  show ?thesis unfolding tr by simp
qed

lemma make_albums_progress [simp]:
  "progress_values (fst (make_albums E fs faces_dir i clusters final_groups)) = []"
proof (induction clusters arbitrary: fs i final_groups)
  case Nil
  show ?case by simp
next
  case (Cons c rest)
  show ?case
  proof (cases "mkdir E fs (path_join faces_dir (''Person_'' @ str_nat i))")
    case (Inl e)
    then show ?thesis by (simp add: Let_def)
  next
    case (Inr fs1)
    obtain ev r where ci: "copy_images E fs1 (path_join faces_dir (''Person_'' @ str_nat i))
        (set_order E (images c)) [] = (ev, r)" by (cases "copy_images E fs1
        (path_join faces_dir (''Person_'' @ str_nat i)) (set_order E (images c)) []")
    have "progress_values (fst (copy_images E fs1 (path_join faces_dir (''Person_'' @ str_nat i))
        (set_order E (images c)) [])) = []"
      by (rule copy_images_progress)
    then have ev: "progress_values ev = []"
      by (simp only: ci fst_conv)
    show ?thesis
    proof (cases r)
      case (Inl e)
      then show ?thesis using Inr ci ev by (simp add: Let_def)
    next
      case (Inr x)
      obtain img_list fs2 where x: "x = (img_list, fs2)" by (cases x)
      show ?thesis
        using \<open>mkdir E fs (path_join faces_dir (''Person_'' @ str_nat i)) = Inr fs1\<close> ci ev Inr x
          Cons.IH [of fs2 "i + 1" "final_groups @ [img_list]"]
        by (simp add: Let_def case_prod_unfold)
    qed
  qed
qed

lemma albums_part_progress [simp]: "progress_values (albums_part E fs base clusters) = []"
proof (cases "mkdir E fs (path_join base ''Faces'')")
  case (Inl e)
  then show ?thesis by (simp add: albums_part_def)
next
  case (Inr fs1)
  obtain ev r where m: "make_albums E fs1 (path_join base ''Faces'') 1 clusters [] = (ev, r)"
    by (cases "make_albums E fs1 (path_join base ''Faces'') 1 clusters []")
  have "progress_values (fst (make_albums E fs1 (path_join base ''Faces'') 1 clusters [])) = []"
    by (rule make_albums_progress)
  then have "progress_values ev = []"
    by (simp only: m fst_conv)
  then show ?thesis using Inr m by (cases r) (simp_all add: albums_part_def)
qed

lemma face_worker_unfold:
  assumes "FACE_AVAILABLE E" and "iter_files E base include_sub = Inr listed"
    and "photos_of E listed \<noteq> []"
  shows "face_grouping_worker stop E fs base include_sub =
     Log (''Analyzing faces in '' @ str_nat (length (photos_of E listed)) @ '' photos...'') #
     fst (face_loop stop E (length (photos_of E listed)) 0 (photos_of E listed) []) @
     albums_part E fs base (snd (face_loop stop E (length (photos_of E listed)) 0 (photos_of E listed) []))"
  using assms
  by (simp add: face_grouping_worker_def photos_of_def albums_part_def Let_def case_prod_unfold)

lemma face_worker_empty:
  assumes "FACE_AVAILABLE E" and "iter_files E base include_sub = Inr listed"
    and "photos_of E listed = []"
  shows "face_grouping_worker stop E fs base include_sub = [Log ''No photos found.'', Progress 1]"
  using assms by (simp add: face_grouping_worker_def photos_of_def Let_def)

lemma face_worker_unavailable:
  assumes "\<not> FACE_AVAILABLE E"
  shows "face_grouping_worker stop E fs base include_sub =
     [Log ''Face recognition not installed.'', Progress 1]"
  using assms by (simp add: face_grouping_worker_def)

lemma polls_all0: "\<forall>i<n. \<not> stop i \<Longrightarrow> polls stop 0 n = n"
  by (rule polls_all) simp

lemma polls_some0: "\<exists>i<n. stop i \<Longrightarrow> polls stop 0 n < n"
  by (rule polls_some) simp

lemma sort_worker_progress:
  assumes "iter_files E base include_sub = Inr files" and "files \<noteq> []"
    and "ensure_dirs E fs base DEFAULT_FOLDERS = Inr fs1"
  shows "progress_values (sort_worker stop E fs base move_mode include_sub groups_selected exif_by_date) =
     map (\<lambda>i. real (i + 1) / real (length files)) [0..<0 + polls stop 0 (length files)] @ [1]"
  by (simp only: sort_worker_unfold [OF assms] progress_values_simps progress_values_append
      sort_loop_progress)

lemma face_worker_progress:
  assumes "FACE_AVAILABLE E" and "iter_files E base include_sub = Inr listed"
    and "photos_of E listed \<noteq> []"
  shows "progress_values (face_grouping_worker stop E fs base include_sub) =
     map (\<lambda>i. real (i + 1) / real (length (photos_of E listed)))
       [0..<0 + polls stop 0 (length (photos_of E listed))]"
  by (simp only: face_worker_unfold [OF assms] progress_values_simps progress_values_append
      face_loop_progress albums_part_progress append_Nil2)

lemma dup_worker_progress:
  assumes "iter_files E base include_sub = Inr listed"
    and "scanned_files E listed images_only \<noteq> []" and "\<forall>i. \<not> stop i"
  shows "progress_values (duplicate_scan_worker stop E base include_sub images_only use_phash
           perceptual_threshold) =
     map (\<lambda>i. real (i + 1) / real (length (size_buckets E (scanned_files E listed images_only))))
       [0..<0 + length (size_buckets E (scanned_files E listed images_only))]"
proof -
  let ?b = "size_buckets E (scanned_files E listed images_only)"
  obtain ds where ds: "snd (scan_groups stop E (length ?b) 0 ?b []) = Inr ds"
    using scan_groups_returns [OF size_buckets_stat] by blast
  show ?thesis
    using scan_groups_progress [OF assms(3) size_buckets_stat, where n = "length ?b" and k = 0
        and acc = "[]"]
    by (simp add: dup_worker_unfold [OF assms(1,2)] ds)
qed

text \<open>
  C1 (as the code has it). The sort emits the progress value 1.0 exactly once on an
  empty listing and exactly once when it is cancelled before its last file, as its
  last progress value; when it is not cancelled it emits 1.0 exactly twice: as the
  fraction of the last file and again after the loop. Face clustering emits 1.0 exactly
  once when the face library is missing, when there is no photo, and when it is not
  cancelled. The duplicate scan emits 1.0 exactly once when it is not cancelled and at
  least one file has a size. (For the sort the listing and the creation of the category
  folders are assumed not to raise, for the other two the listing.)
\<close>

theorem progress_one_on_terminal_paths:
  "(iter_files E base include_sub = Inr [] \<longrightarrow>
      progress_values (sort_worker stop E fs base move_mode include_sub groups_selected exif_by_date)
        = [1]) \<and>
   (iter_files E base include_sub = Inr files \<and> files \<noteq> [] \<and>
    ensure_dirs E fs base DEFAULT_FOLDERS = Inr fs1 \<longrightarrow>
      last (progress_values
        (sort_worker stop E fs base move_mode include_sub groups_selected exif_by_date)) = 1 \<and>
      ((\<exists>i<length files. stop i) \<longrightarrow>
         count_list (progress_values
           (sort_worker stop E fs base move_mode include_sub groups_selected exif_by_date)) 1 = 1) \<and>
      ((\<forall>i<length files. \<not> stop i) \<longrightarrow>
         count_list (progress_values
           (sort_worker stop E fs base move_mode include_sub groups_selected exif_by_date)) 1 = 2)) \<and>
   (\<not> FACE_AVAILABLE E \<longrightarrow>
      progress_values (face_grouping_worker stop E fs base include_sub) = [1]) \<and>
   (FACE_AVAILABLE E \<and> iter_files E base include_sub = Inr listed \<and> photos_of E listed = [] \<longrightarrow>
      progress_values (face_grouping_worker stop E fs base include_sub) = [1]) \<and>
   (FACE_AVAILABLE E \<and> iter_files E base include_sub = Inr listed \<and> photos_of E listed \<noteq> [] \<and>
    (\<forall>i<length (photos_of E listed). \<not> stop i) \<longrightarrow>
      count_list (progress_values (face_grouping_worker stop E fs base include_sub)) 1 = 1) \<and>
   (iter_files E base include_sub = Inr listed \<and>
    size_buckets E (scanned_files E listed images_only) \<noteq> [] \<and> (\<forall>i. \<not> stop i) \<longrightarrow>
      count_list (progress_values (duplicate_scan_worker stop E base include_sub images_only
        use_phash perceptual_threshold)) 1 = 1)"
proof -
  let ?sort = "sort_worker stop E fs base move_mode include_sub groups_selected exif_by_date"
  let ?face = "face_grouping_worker stop E fs base include_sub"
  let ?dup = "duplicate_scan_worker stop E base include_sub images_only use_phash perceptual_threshold"
  have s0: "iter_files E base include_sub = Inr [] \<longrightarrow> progress_values ?sort = [1]"
    by (simp add: sort_worker_empty)
  have s1: "iter_files E base include_sub = Inr files \<and> files \<noteq> [] \<and>
    ensure_dirs E fs base DEFAULT_FOLDERS = Inr fs1 \<longrightarrow>
      last (progress_values ?sort) = 1 \<and>
      ((\<exists>i<length files. stop i) \<longrightarrow> count_list (progress_values ?sort) 1 = 1) \<and>
      ((\<forall>i<length files. \<not> stop i) \<longrightarrow> count_list (progress_values ?sort) 1 = 2)"
  proof (intro impI)
    assume asm: "iter_files E base include_sub = Inr files \<and> files \<noteq> [] \<and>
      ensure_dirs E fs base DEFAULT_FOLDERS = Inr fs1"
    then have pv: "progress_values ?sort =
        map (\<lambda>i. real (i + 1) / real (length files)) [0..<polls stop 0 (length files)] @ [1]"
      using sort_worker_progress [of E base include_sub files fs fs1] by simp
    have pos: "0 < length files" using asm by simp
    have cnt: "count_list (progress_values ?sort) 1 =
        (if polls stop 0 (length files) = length files then 1 else 0) + 1"
      unfolding pv using count_fractions [OF polls_le [of stop 0 "length files"]] pos
      by (simp add: count_list_append_one)
    have a: "last (progress_values ?sort) = 1" unfolding pv by simp
    have b: "(\<exists>i<length files. stop i) \<longrightarrow> count_list (progress_values ?sort) 1 = 1"
    proof
      assume "\<exists>i<length files. stop i"
      then have "polls stop 0 (length files) < length files" by (rule polls_some0)
      then show "count_list (progress_values ?sort) 1 = 1" unfolding cnt by simp
    qed
    have c: "(\<forall>i<length files. \<not> stop i) \<longrightarrow> count_list (progress_values ?sort) 1 = 2"
    proof
      assume "\<forall>i<length files. \<not> stop i"
      then have "polls stop 0 (length files) = length files" by (rule polls_all0)
      then show "count_list (progress_values ?sort) 1 = 2" unfolding cnt by simp
    qed
    show "last (progress_values ?sort) = 1 \<and>
      ((\<exists>i<length files. stop i) \<longrightarrow> count_list (progress_values ?sort) 1 = 1) \<and>
      ((\<forall>i<length files. \<not> stop i) \<longrightarrow> count_list (progress_values ?sort) 1 = 2)"
      by (intro conjI a b c)
  qed
  have f0: "\<not> FACE_AVAILABLE E \<longrightarrow> progress_values ?face = [1]"
    by (simp add: face_worker_unavailable)
  have f1: "FACE_AVAILABLE E \<and> iter_files E base include_sub = Inr listed \<and> photos_of E listed = []
      \<longrightarrow> progress_values ?face = [1]"
    by (simp add: face_worker_empty)
  have f2: "FACE_AVAILABLE E \<and> iter_files E base include_sub = Inr listed \<and> photos_of E listed \<noteq> [] \<and>
    (\<forall>i<length (photos_of E listed). \<not> stop i) \<longrightarrow> count_list (progress_values ?face) 1 = 1"
  proof
    assume asm: "FACE_AVAILABLE E \<and> iter_files E base include_sub = Inr listed \<and>
      photos_of E listed \<noteq> [] \<and> (\<forall>i<length (photos_of E listed). \<not> stop i)"
    let ?n = "length (photos_of E listed)"
    have "polls stop 0 ?n = ?n" using asm by (intro polls_all0) simp
    then have "progress_values ?face = map (\<lambda>i. real (i + 1) / real ?n) [0..<?n]"
      using face_worker_progress [of E base include_sub listed stop fs] asm by simp
    then show "count_list (progress_values ?face) 1 = 1"
      using count_fractions [of ?n ?n] asm by simp
  qed
  have d1: "iter_files E base include_sub = Inr listed \<and>
    size_buckets E (scanned_files E listed images_only) \<noteq> [] \<and> (\<forall>i. \<not> stop i) \<longrightarrow>
      count_list (progress_values ?dup) 1 = 1"
  proof
    assume asm: "iter_files E base include_sub = Inr listed \<and>
      size_buckets E (scanned_files E listed images_only) \<noteq> [] \<and> (\<forall>i. \<not> stop i)"
    let ?n = "length (size_buckets E (scanned_files E listed images_only))"
    have ne: "scanned_files E listed images_only \<noteq> []"
      using asm by (auto simp: size_buckets_def)
    have "progress_values ?dup = map (\<lambda>i. real (i + 1) / real ?n) [0..<?n]"
      using dup_worker_progress [of E base include_sub listed images_only stop] asm ne by simp
    then show "count_list (progress_values ?dup) 1 = 1"
      using count_fractions [of ?n ?n] asm by simp
  qed
  show ?thesis by (intro conjI s0 s1 f0 f1 f2 d1)
qed

lemma demo_dirs:
  "ensure_dirs demo_env [] [''d''] DEFAULT_FOLDERS = Inr (rev (map (\<lambda>g. [''d'', g]) DEFAULT_FOLDERS))"
  by (subst demo_ensure_dirs) (simp add: demo_env_def)

lemma demo_photos: "photos_of demo_env demo_files = [[''d'', ''a.JPG''], [''d'', ''b.jpg'']]"
  by code_simp

lemma demo_buckets:
  "size_buckets demo_env (scanned_files demo_env demo_files False) =
     [[[''d'', ''a.JPG''], [''d'', ''b.jpg'']], [[''d'', ''c.txt'']]]"
  by (simp add: scanned_files_def size_buckets_def demo_size_map)

theorem progress_one_on_terminal_paths_witness:
  "iter_files empty_env [''d''] False = Inr [] \<and>
   progress_values (sort_worker (\<lambda>i. False) empty_env [] [''d''] False False [] True) = [1] \<and>
   iter_files demo_env [''d''] False = Inr demo_files \<and> length demo_files = 5 \<and>
   ensure_dirs demo_env [] [''d''] DEFAULT_FOLDERS = Inr (rev (map (\<lambda>g. [''d'', g]) DEFAULT_FOLDERS)) \<and>
   last (progress_values (sort_worker (\<lambda>i. i = 2) demo_env [] [''d''] False False [] True)) = 1 \<and>
   count_list (progress_values (sort_worker (\<lambda>i. i = 2) demo_env [] [''d''] False False [] True)) 1 = 1 \<and>
   count_list (progress_values (sort_worker (\<lambda>i. False) demo_env [] [''d''] False False [] True)) 1 = 2 \<and>
   \<not> FACE_AVAILABLE faceless_env \<and>
   progress_values (face_grouping_worker (\<lambda>i. False) faceless_env [] [''d''] False) = [1] \<and>
   FACE_AVAILABLE empty_env \<and> photos_of empty_env [] = [] \<and>
   progress_values (face_grouping_worker (\<lambda>i. False) empty_env [] [''d''] False) = [1] \<and>
   FACE_AVAILABLE demo_env \<and>
   photos_of demo_env demo_files = [[''d'', ''a.JPG''], [''d'', ''b.jpg'']] \<and>
   count_list (progress_values (face_grouping_worker (\<lambda>i. False) demo_env [] [''d''] False)) 1 = 1 \<and>
   size_buckets demo_env (scanned_files demo_env demo_files False) \<noteq> [] \<and>
   count_list (progress_values (duplicate_scan_worker (\<lambda>i. False) demo_env [''d''] False False True 10)) 1 = 1"
proof -
  have el: "iter_files empty_env [''d''] False = Inr []"
    by (simp add: iter_files_def empty_env_def demo_env_def)
  have s0: "progress_values (sort_worker (\<lambda>i. False) empty_env [] [''d''] False False [] True) = [1]"
    using progress_one_on_terminal_paths [of empty_env "[''d'']" False "\<lambda>i. False" "[]" False "[]" True,
        THEN conjunct1] el by simp
  have len: "length demo_files = 5" by (simp add: demo_files_def)
  have ne: "demo_files \<noteq> []" by (simp add: demo_files_def)
  have sorted:
    "last (progress_values (sort_worker stop demo_env [] [''d''] False False [] True)) = 1 \<and>
      ((\<exists>i<length demo_files. stop i) \<longrightarrow>
         count_list (progress_values (sort_worker stop demo_env [] [''d''] False False [] True)) 1 = 1) \<and>
      ((\<forall>i<length demo_files. \<not> stop i) \<longrightarrow>
         count_list (progress_values (sort_worker stop demo_env [] [''d''] False False [] True)) 1 = 2)"
    for stop
    using progress_one_on_terminal_paths [where E = demo_env and base = "[''d'']" and stop = stop
      and include_sub = False and fs = "[]" and files = demo_files and move_mode = False
      and groups_selected = "[]" and exif_by_date = True, THEN conjunct2, THEN conjunct1, THEN mp,
      OF conjI [OF demo_listing conjI [OF ne demo_dirs]]] .
  have stopped: "\<exists>i<length demo_files. (\<lambda>i. i = 2) i" by (simp add: len)
  have running: "\<forall>i<length demo_files. \<not> (\<lambda>i. False) i" by simp
  have s1: "last (progress_values (sort_worker (\<lambda>i. i = 2) demo_env [] [''d''] False False [] True)) = 1"
    using sorted [of "\<lambda>i. i = 2", THEN conjunct1] .
  have s2: "count_list (progress_values (sort_worker (\<lambda>i. i = 2) demo_env [] [''d''] False False [] True)) 1 = 1"
    using sorted [of "\<lambda>i. i = 2", THEN conjunct2, THEN conjunct1, THEN mp, OF stopped] .
  have s3: "count_list (progress_values (sort_worker (\<lambda>i. False) demo_env [] [''d''] False False [] True)) 1 = 2"
    using sorted [of "\<lambda>i. False", THEN conjunct2, THEN conjunct2, THEN mp, OF running] .
  have nf: "\<not> FACE_AVAILABLE faceless_env" by (simp add: faceless_env_def)
  have f0: "progress_values (face_grouping_worker (\<lambda>i. False) faceless_env [] [''d''] False) = [1]"
    using progress_one_on_terminal_paths [where E = faceless_env and stop = "\<lambda>i. False" and fs = "[]"
        and base = "[''d'']" and include_sub = False,
        THEN conjunct2, THEN conjunct2, THEN conjunct1, THEN mp, OF nf] .
  have fe: "FACE_AVAILABLE empty_env" by (simp add: empty_env_def demo_env_def)
  have pe: "photos_of empty_env [] = []" by (simp add: photos_of_def)
  have f1: "progress_values (face_grouping_worker (\<lambda>i. False) empty_env [] [''d''] False) = [1]"
    using progress_one_on_terminal_paths [where E = empty_env and stop = "\<lambda>i. False" and fs = "[]"
        and base = "[''d'']" and include_sub = False and listed = "[]",
        THEN conjunct2, THEN conjunct2, THEN conjunct2, THEN conjunct1, THEN mp,
        OF conjI [OF fe conjI [OF el pe]]] .
  have fd: "FACE_AVAILABLE demo_env" by (simp add: demo_env_def)
  have pne: "photos_of demo_env demo_files \<noteq> []" by (simp add: demo_photos)
  have frun: "\<forall>i<length (photos_of demo_env demo_files). \<not> (\<lambda>i. False) i" by simp
  have f2: "count_list (progress_values (face_grouping_worker (\<lambda>i. False) demo_env [] [''d''] False)) 1 = 1"
    using progress_one_on_terminal_paths [where E = demo_env and stop = "\<lambda>i. False" and fs = "[]"
        and base = "[''d'']" and include_sub = False and listed = demo_files,
        THEN conjunct2, THEN conjunct2, THEN conjunct2, THEN conjunct2, THEN conjunct1, THEN mp,
        OF conjI [OF fd conjI [OF demo_listing conjI [OF pne frun]]]] .
  have bne: "size_buckets demo_env (scanned_files demo_env demo_files False) \<noteq> []"
    by (simp add: demo_buckets)
  have drun: "\<forall>i. \<not> (\<lambda>i::nat. False) i" by simp
  have d1: "count_list (progress_values (duplicate_scan_worker (\<lambda>i. False) demo_env [''d''] False False True 10)) 1 = 1"
    using progress_one_on_terminal_paths [where E = demo_env and stop = "\<lambda>i. False"
        and base = "[''d'']" and include_sub = False and listed = demo_files and images_only = False
        and use_phash = True and perceptual_threshold = 10,
        THEN conjunct2, THEN conjunct2, THEN conjunct2, THEN conjunct2, THEN conjunct2, THEN mp,
        OF conjI [OF demo_listing conjI [OF bne drun]]] .
  show ?thesis
    by (intro conjI el s0 demo_listing len demo_dirs s1 s2 s3 nf f0 fe pe f1 fd demo_photos f2 bne d1)
qed


text \<open>
  A path left out of the statement above: a duplicate scan without files emits no
  progress value at all, hence not 1.0.
\<close>

lemma dup_empty_no_progress:
  assumes "iter_files E base include_sub = Inr listed"
    and "scanned_files E listed images_only = []"
  shows "progress_values (duplicate_scan_worker stop E base include_sub images_only use_phash
           perceptual_threshold) = []"
  by (simp add: dup_worker_empty [OF assms])

lemma demo_files_ne: "demo_files \<noteq> []"
  by (simp add: demo_files_def)


lemma albums_part_nil:
  "albums_part E fs base [] =
     (case mkdir_fails E (path_join base ''Faces'') of
        Some e \<Rightarrow> [Raise e]
      | None \<Rightarrow> [Log ''Created 0 face albums.'', ResultFaces []])"
  by (simp add: albums_part_def mkdir_def str_nat_small split: option.splits)



lemma dup_cancelled:
  assumes "stop 0" and "iter_files E base include_sub = Inr listed"
    and "scanned_files E listed images_only \<noteq> []"
  shows "duplicate_scan_worker stop E base include_sub images_only use_phash perceptual_threshold =
     [Log ''Listing files...'',
      Log (''Scanning '' @ str_nat (length (scanned_files E listed images_only)) @
           '' files for duplicates...''),
      ResultDups [], Log ''Found 0 duplicate groups.'']"
  by (simp add: dup_worker_unfold [OF assms(2,3)] scan_groups_stopped [where stop = stop and k = 0, OF assms(1)] str_nat_small)

lemma face_cancelled:
  assumes "stop 0" and "FACE_AVAILABLE E" and "iter_files E base include_sub = Inr listed"
    and "photos_of E listed \<noteq> []"
  shows "face_grouping_worker stop E fs base include_sub =
     Log (''Analyzing faces in '' @ str_nat (length (photos_of E listed)) @ '' photos...'') #
     (case mkdir_fails E (path_join base ''Faces'') of
        Some e \<Rightarrow> [Raise e]
      | None \<Rightarrow> [Log ''Created 0 face albums.'', ResultFaces []])"
  by (simp add: face_worker_unfold [OF assms(2,3,4)] face_loop_stopped [where stop = stop and k = 0, OF assms(1)] albums_part_nil)

text \<open>
  A duplicate scan and a face clustering cancelled at their first poll emit no progress
  value either.
\<close>

lemma dup_cancelled_no_progress:
  assumes "stop 0" and "iter_files E base include_sub = Inr listed"
    and "scanned_files E listed images_only \<noteq> []"
  shows "progress_values (duplicate_scan_worker stop E base include_sub images_only use_phash
           perceptual_threshold) = []"
  by (simp add: dup_cancelled [where stop = stop, OF assms])

lemma face_cancelled_no_progress:
  assumes "stop 0" and "FACE_AVAILABLE E" and "iter_files E base include_sub = Inr listed"
    and "photos_of E listed \<noteq> []"
  shows "progress_values (face_grouping_worker stop E fs base include_sub) = []"
  by (simp add: face_cancelled [where stop = stop, OF assms] split: option.splits)







lemma fill_skips: "fill kf xs m = fill kf (filter (\<lambda>x. kf x \<noteq> None) xs) m"
  by (induction xs arbitrary: m) (auto split: option.splits)

lemma size_buckets_skips:
  "size_buckets E files = size_buckets E (filter (\<lambda>f. size_of E f \<noteq> None) files)"
  unfolding size_buckets_def build_size_map_fill by (subst fill_skips) simp

lemma hash_group_skips:
  "hash_group E g [] = hash_group E (filter (\<lambda>f. sha256 E f \<noteq> None) g) []"
  unfolding hash_group_fill by (subst fill_skips) simp

lemma scan_groups_no_raise: "Raise x \<notin> set (fst (scan_groups stop E n k groups acc))"
  using scan_groups_work [of "Raise x" stop E n k groups acc] by auto

lemma dup_worker_logs:
  assumes "iter_files E base include_sub = Inr listed"
    and "scanned_files E listed images_only \<noteq> []"
  shows "\<exists>ds. result_dups (duplicate_scan_worker stop E base include_sub images_only use_phash
              perceptual_threshold) = Some ds \<and>
     log_lines (duplicate_scan_worker stop E base include_sub images_only use_phash
              perceptual_threshold) =
       [''Listing files...'',
        ''Scanning '' @ str_nat (length (scanned_files E listed images_only)) @
          '' files for duplicates...'',
        ''Found '' @ str_nat (length ds) @ '' duplicate groups.''] \<and>
     (\<forall>x. Raise x \<notin> set (duplicate_scan_worker stop E base include_sub images_only use_phash
              perceptual_threshold))"
proof -
  let ?b = "size_buckets E (scanned_files E listed images_only)"
  obtain ds where ds: "snd (scan_groups stop E (length ?b) 0 ?b []) = Inr ds"
    using scan_groups_returns [OF size_buckets_stat] by blast
  have "result_dups (duplicate_scan_worker stop E base include_sub images_only use_phash
              perceptual_threshold) = Some ds"
    by (simp add: dup_worker_unfold [OF assms] ds result_dups_scan)
  moreover have "log_lines (duplicate_scan_worker stop E base include_sub images_only use_phash
              perceptual_threshold) =
       [''Listing files...'',
        ''Scanning '' @ str_nat (length (scanned_files E listed images_only)) @
          '' files for duplicates...'',
        ''Found '' @ str_nat (length ds) @ '' duplicate groups.'']"
    by (simp add: dup_worker_unfold [OF assms] ds scan_groups_logs)
  moreover have "\<forall>x. Raise x \<notin> set (duplicate_scan_worker stop E base include_sub images_only
      use_phash perceptual_threshold)"
    by (simp add: dup_worker_unfold [OF assms] ds scan_groups_no_raise)
  ultimately show ?thesis by (intro exI [of _ ds] conjI)
qed

lemma sort_item_target_failed:
  "sort_target E base groups_selected exif_by_date f = Inl e \<Longrightarrow>
     sort_item E fs base move_mode groups_selected exif_by_date f =
       ([Log (''Error '' @ name f @ '': '' @ e)], fs)"
  by (simp add: sort_item_def)

lemma sort_item_transfer_failed:
  assumes "sort_target E base groups_selected exif_by_date f = Inr dst"
    and "fst (if move_mode then safe_move E fs f dst else safe_copy E fs f dst) = Inl e"
  shows "fst (sort_item E fs base move_mode groups_selected exif_by_date f) =
       [Log (''Error '' @ name f @ '': '' @ e)]"
proof (cases move_mode)
  case True
  then show ?thesis
    using assms by (cases "safe_move E fs f dst") (auto simp: sort_item_def transfer_def)
next
  case False
  then show ?thesis
    using assms by (cases "safe_copy E fs f dst") (auto simp: sort_item_def transfer_def)
qed

lemma sort_worker_complete:
  assumes "iter_files E base include_sub = Inr files" and "files \<noteq> []"
    and "ensure_dirs E fs base DEFAULT_FOLDERS = Inr fsd" and "\<forall>i. \<not> stop i"
  shows "(\<forall>x. Raise x \<notin> set (sort_worker stop E fs base move_mode include_sub groups_selected
            exif_by_date)) \<and>
     progress_values (sort_worker stop E fs base move_mode include_sub groups_selected exif_by_date) =
       map (\<lambda>i. real (i + 1) / real (length files)) [0..<length files] @ [1] \<and>
     length (log_lines (sort_worker stop E fs base move_mode include_sub groups_selected
       exif_by_date)) = length files + 3"
proof -
  have p: "polls stop 0 (length files) = length files"
    using assms(4) by (intro polls_all0) simp
  have a: "\<forall>x. Raise x \<notin> set (sort_worker stop E fs base move_mode include_sub groups_selected
            exif_by_date)"
    by (simp add: sort_worker_unfold [OF assms(1,2,3)] sort_loop_no_raise)
  have b: "progress_values (sort_worker stop E fs base move_mode include_sub groups_selected
      exif_by_date) = map (\<lambda>i. real (i + 1) / real (length files)) [0..<length files] @ [1]"
    using sort_worker_progress [OF assms(1,2,3), of stop move_mode groups_selected exif_by_date]
    by (simp add: p)
  have c: "length (log_lines (sort_worker stop E fs base move_mode include_sub groups_selected
       exif_by_date)) = length files + 3"
    using sort_loop_logs [OF assms(4), of E base move_mode groups_selected exif_by_date
        "length files" 0 files fsd]
    by (simp add: sort_worker_unfold [OF assms(1,2,3)])
  show ?thesis by (intro conjI a b c)
qed

text \<open>
  C8 (as the code has it). In the sort, an exception raised while the destination of one
  file is computed or while the file is copied or moved is caught: the file gives the
  one log line \<open>Error name: message\<close> and nothing is copied or moved for it; the progress
  fraction of the file is emitted all the same and the loop goes on with the next file.
  A sort that is not cancelled never raises, emits one progress fraction per file and
  then 1.0, and logs one line per file besides its three fixed lines. In the duplicate
  scan, a file whose \<open>stat\<close> raises while the sizes are collected, or whose hashing
  raises, is dropped without a log line: the size buckets and the digest groups are
  those of the remaining files. The scan goes on, never raises, and logs its three
  fixed lines only; when it is not cancelled it emits one progress fraction per size
  bucket.
\<close>

theorem item_failures_do_not_abort:
  "(sort_target E base groups_selected exif_by_date f = Inl e \<longrightarrow>
      sort_item E fs base move_mode groups_selected exif_by_date f =
        ([Log (''Error '' @ name f @ '': '' @ e)], fs)) \<and>
   (sort_target E base groups_selected exif_by_date f = Inr dst \<and>
    fst (if move_mode then safe_move E fs f dst else safe_copy E fs f dst) = Inl e \<longrightarrow>
      fst (sort_item E fs base move_mode groups_selected exif_by_date f) =
        [Log (''Error '' @ name f @ '': '' @ e)]) \<and>
   (\<not> stop k \<longrightarrow>
      sort_loop stop E base move_mode groups_selected exif_by_date total' k (f # rest) fs =
        fst (sort_item E fs base move_mode groups_selected exif_by_date f) @
        Progress (real (k + 1) / real total') #
        sort_loop stop E base move_mode groups_selected exif_by_date total' (k + 1) rest
          (snd (sort_item E fs base move_mode groups_selected exif_by_date f))) \<and>
   (iter_files E base include_sub = Inr files \<and> files \<noteq> [] \<and>
    ensure_dirs E fs base DEFAULT_FOLDERS = Inr fsd \<and> (\<forall>i. \<not> stop i) \<longrightarrow>
      (\<forall>x. Raise x \<notin> set (sort_worker stop E fs base move_mode include_sub groups_selected
         exif_by_date)) \<and>
      progress_values (sort_worker stop E fs base move_mode include_sub groups_selected exif_by_date) =
        map (\<lambda>i. real (i + 1) / real (length files)) [0..<length files] @ [1] \<and>
      length (log_lines (sort_worker stop E fs base move_mode include_sub groups_selected
        exif_by_date)) = length files + 3) \<and>
   size_buckets E files = size_buckets E (filter (\<lambda>f. size_of E f \<noteq> None) files) \<and>
   hash_group E g [] = hash_group E (filter (\<lambda>f. sha256 E f \<noteq> None) g) [] \<and>
   (iter_files E base include_sub = Inr listed \<and> scanned_files E listed images_only \<noteq> [] \<longrightarrow>
      (\<exists>ds. result_dups (duplicate_scan_worker stop E base include_sub images_only use_phash
              perceptual_threshold) = Some ds \<and>
         log_lines (duplicate_scan_worker stop E base include_sub images_only use_phash
              perceptual_threshold) =
           [''Listing files...'',
            ''Scanning '' @ str_nat (length (scanned_files E listed images_only)) @
              '' files for duplicates...'',
            ''Found '' @ str_nat (length ds) @ '' duplicate groups.''] \<and>
         (\<forall>x. Raise x \<notin> set (duplicate_scan_worker stop E base include_sub images_only use_phash
              perceptual_threshold)))) \<and>
   (iter_files E base include_sub = Inr listed \<and> scanned_files E listed images_only \<noteq> [] \<and>
    (\<forall>i. \<not> stop i) \<longrightarrow>
      progress_values (duplicate_scan_worker stop E base include_sub images_only use_phash
        perceptual_threshold) =
        map (\<lambda>i. real (i + 1) / real (length (size_buckets E (scanned_files E listed images_only))))
          [0..<length (size_buckets E (scanned_files E listed images_only))])"
proof -
  have a: "sort_target E base groups_selected exif_by_date f = Inl e \<longrightarrow>
      sort_item E fs base move_mode groups_selected exif_by_date f =
        ([Log (''Error '' @ name f @ '': '' @ e)], fs)"
    by (intro impI) (rule sort_item_target_failed)
  have b: "sort_target E base groups_selected exif_by_date f = Inr dst \<and>
    fst (if move_mode then safe_move E fs f dst else safe_copy E fs f dst) = Inl e \<longrightarrow>
      fst (sort_item E fs base move_mode groups_selected exif_by_date f) =
        [Log (''Error '' @ name f @ '': '' @ e)]"
    using sort_item_transfer_failed [of E base groups_selected exif_by_date f dst move_mode fs e]
    by blast
  have c: "\<not> stop k \<longrightarrow>
      sort_loop stop E base move_mode groups_selected exif_by_date total' k (f # rest) fs =
        fst (sort_item E fs base move_mode groups_selected exif_by_date f) @
        Progress (real (k + 1) / real total') #
        sort_loop stop E base move_mode groups_selected exif_by_date total' (k + 1) rest
          (snd (sort_item E fs base move_mode groups_selected exif_by_date f))"
    by (intro impI) (rule sort_loop_step)
  have d: "iter_files E base include_sub = Inr files \<and> files \<noteq> [] \<and>
    ensure_dirs E fs base DEFAULT_FOLDERS = Inr fsd \<and> (\<forall>i. \<not> stop i) \<longrightarrow>
      (\<forall>x. Raise x \<notin> set (sort_worker stop E fs base move_mode include_sub groups_selected
         exif_by_date)) \<and>
      progress_values (sort_worker stop E fs base move_mode include_sub groups_selected exif_by_date) =
        map (\<lambda>i. real (i + 1) / real (length files)) [0..<length files] @ [1] \<and>
      length (log_lines (sort_worker stop E fs base move_mode include_sub groups_selected
        exif_by_date)) = length files + 3"
  proof
    assume asm: "iter_files E base include_sub = Inr files \<and> files \<noteq> [] \<and>
      ensure_dirs E fs base DEFAULT_FOLDERS = Inr fsd \<and> (\<forall>i. \<not> stop i)"
    show "(\<forall>x. Raise x \<notin> set (sort_worker stop E fs base move_mode include_sub groups_selected
         exif_by_date)) \<and>
      progress_values (sort_worker stop E fs base move_mode include_sub groups_selected exif_by_date) =
        map (\<lambda>i. real (i + 1) / real (length files)) [0..<length files] @ [1] \<and>
      length (log_lines (sort_worker stop E fs base move_mode include_sub groups_selected
        exif_by_date)) = length files + 3"
      by (rule sort_worker_complete) (use asm in simp_all)
  qed
  have g: "iter_files E base include_sub = Inr listed \<and> scanned_files E listed images_only \<noteq> [] \<longrightarrow>
      (\<exists>ds. result_dups (duplicate_scan_worker stop E base include_sub images_only use_phash
              perceptual_threshold) = Some ds \<and>
         log_lines (duplicate_scan_worker stop E base include_sub images_only use_phash
              perceptual_threshold) =
           [''Listing files...'',
            ''Scanning '' @ str_nat (length (scanned_files E listed images_only)) @
              '' files for duplicates...'',
            ''Found '' @ str_nat (length ds) @ '' duplicate groups.''] \<and>
         (\<forall>x. Raise x \<notin> set (duplicate_scan_worker stop E base include_sub images_only use_phash
              perceptual_threshold)))"
  proof
    assume asm: "iter_files E base include_sub = Inr listed \<and>
      scanned_files E listed images_only \<noteq> []"
    show "\<exists>ds. result_dups (duplicate_scan_worker stop E base include_sub images_only use_phash
              perceptual_threshold) = Some ds \<and>
         log_lines (duplicate_scan_worker stop E base include_sub images_only use_phash
              perceptual_threshold) =
           [''Listing files...'',
            ''Scanning '' @ str_nat (length (scanned_files E listed images_only)) @
              '' files for duplicates...'',
            ''Found '' @ str_nat (length ds) @ '' duplicate groups.''] \<and>
         (\<forall>x. Raise x \<notin> set (duplicate_scan_worker stop E base include_sub images_only use_phash
              perceptual_threshold))"
      by (rule dup_worker_logs) (use asm in simp_all)
  qed
  have h: "iter_files E base include_sub = Inr listed \<and>
    scanned_files E listed images_only \<noteq> [] \<and> (\<forall>i. \<not> stop i) \<longrightarrow>
      progress_values (duplicate_scan_worker stop E base include_sub images_only use_phash
        perceptual_threshold) =
        map (\<lambda>i. real (i + 1) / real (length (size_buckets E (scanned_files E listed images_only))))
          [0..<length (size_buckets E (scanned_files E listed images_only))]"
  proof
    assume asm: "iter_files E base include_sub = Inr listed \<and>
      scanned_files E listed images_only \<noteq> [] \<and> (\<forall>i. \<not> stop i)"
    have "progress_values (duplicate_scan_worker stop E base include_sub images_only use_phash
        perceptual_threshold) =
        map (\<lambda>i. real (i + 1) / real (length (size_buckets E (scanned_files E listed images_only))))
          [0..<0 + length (size_buckets E (scanned_files E listed images_only))]"
      by (rule dup_worker_progress) (use asm in simp_all)
    then show "progress_values (duplicate_scan_worker stop E base include_sub images_only use_phash
        perceptual_threshold) =
        map (\<lambda>i. real (i + 1) / real (length (size_buckets E (scanned_files E listed images_only))))
          [0..<length (size_buckets E (scanned_files E listed images_only))]"
      by simp
  qed
  show ?thesis
    by (intro conjI a b c d size_buckets_skips hash_group_skips g h)
qed

lemma unreadable_listing: "iter_files unreadable_env [''d''] False = Inr demo_files"
  by (simp add: iter_files_def unreadable_env_def demo_env_def)

lemma unreadable_size_map:
  "build_size_map unreadable_env demo_files [] =
     [(1024, [[''d'', ''a.JPG''], [''d'', ''b.jpg'']]), (50, [[''d'', ''c.txt'']])]"
  by (simp add: demo_files_def unreadable_env_def demo_env_def)

lemma unreadable_hash_b: "sha256 unreadable_env [''d'', ''b.jpg''] = None"
  by (simp add: sha256_eq unreadable_env_def)

lemma unreadable_hash_group:
  "hash_group unreadable_env [[''d'', ''a.JPG''], [''d'', ''b.jpg'']] [] = [(''xx'', [[''d'', ''a.JPG'']])]"
  by (simp add: sha256_eq unreadable_env_def demo_env_def)

lemma unreadable_scan_groups:
  "scan_groups (\<lambda>i. False) unreadable_env (Suc (Suc 0)) 0
     [[[''d'', ''a.JPG''], [''d'', ''b.jpg'']], [[''d'', ''c.txt'']]] [] =
     ([Sha256 [''d'', ''a.JPG''], Sha256 [''d'', ''b.jpg''], Progress (1 / 2), Progress 1], Inr [])"
  by (simp add: unreadable_hash_group del: hash_group.simps)

text \<open>
  The duplicate scan of the directory where \<^verbatim>\<open>b.jpg\<close> has a size but cannot be opened: the
  file is hashed, the hashing fails, and the log has the three fixed lines only. The
  failure is not converted to a log line.
\<close>

theorem item_failures_do_not_abort_counterexample:
  "stat unreadable_env [''d'', ''b.jpg''] = Inr \<lparr>st_size = 1024, st_mtime = 20\<rparr> \<and>
   sha256 unreadable_env [''d'', ''b.jpg''] = None \<and>
   duplicate_scan_worker (\<lambda>i. False) unreadable_env [''d''] False False True 10 =
     [Log ''Listing files...'', Log ''Scanning 5 files for duplicates...'',
      Sha256 [''d'', ''a.JPG''], Sha256 [''d'', ''b.jpg''], Progress (1 / 2), Progress 1,
      ResultDups [], Log ''Found 0 duplicate groups.''] \<and>
   log_lines (duplicate_scan_worker (\<lambda>i. False) unreadable_env [''d''] False False True 10) =
     [''Listing files...'', ''Scanning 5 files for duplicates...'', ''Found 0 duplicate groups.'']"
proof -
  have st: "stat unreadable_env [''d'', ''b.jpg''] = Inr \<lparr>st_size = 1024, st_mtime = 20\<rparr>"
    by (simp add: unreadable_env_def demo_env_def)
  have len: "length demo_files = 5" by (simp add: demo_files_def)
  have tr: "duplicate_scan_worker (\<lambda>i. False) unreadable_env [''d''] False False True 10 =
     [Log ''Listing files...'', Log ''Scanning 5 files for duplicates...'',
      Sha256 [''d'', ''a.JPG''], Sha256 [''d'', ''b.jpg''], Progress (1 / 2), Progress 1,
      ResultDups [], Log ''Found 0 duplicate groups.'']"
    by (simp add: duplicate_scan_worker_def unreadable_listing unreadable_size_map
        unreadable_scan_groups len demo_files_ne str_nat_small
        del: scan_groups.simps build_size_map.simps)
  have lg: "log_lines (duplicate_scan_worker (\<lambda>i. False) unreadable_env [''d''] False False True 10) =
     [''Listing files...'', ''Scanning 5 files for duplicates...'', ''Found 0 duplicate groups.'']"
    unfolding tr by simp
  show ?thesis by (intro conjI st unreadable_hash_b tr lg)
qed

lemma denied_listing: "iter_files denied_env [''d''] False = Inr demo_files"
  by (simp add: iter_files_def denied_env_def demo_env_def)

lemma denied_dirs:
  "ensure_dirs denied_env [] [''d''] DEFAULT_FOLDERS = Inr (rev (map (\<lambda>g. [''d'', g]) DEFAULT_FOLDERS))"
  by (subst demo_ensure_dirs) (simp add: denied_env_def demo_env_def)

lemma denied_group: "detect_group denied_env [''d'', ''c.txt''] = Some ''Documents''"
  by code_simp

theorem item_failures_do_not_abort_witness:
  "sort_target denied_env [''d''] [] True [''d'', ''c.txt''] = Inr [''d'', ''Documents'', ''c.txt''] \<and>
   fst (safe_copy denied_env [] [''d'', ''c.txt''] [''d'', ''Documents'', ''c.txt'']) =
     Inl ''Permission denied'' \<and>
   fst (sort_item denied_env [] [''d''] False [] True [''d'', ''c.txt'']) =
     [Log ''Error c.txt: Permission denied''] \<and>
   iter_files denied_env [''d''] False = Inr demo_files \<and> length demo_files = 5 \<and>
   ensure_dirs denied_env [] [''d''] DEFAULT_FOLDERS =
     Inr (rev (map (\<lambda>g. [''d'', g]) DEFAULT_FOLDERS)) \<and>
   (\<forall>x. Raise x \<notin> set (sort_worker (\<lambda>i. False) denied_env [] [''d''] False False [] True)) \<and>
   progress_values (sort_worker (\<lambda>i. False) denied_env [] [''d''] False False [] True) =
     [1 / 5, 2 / 5, 3 / 5, 4 / 5, 1, 1] \<and>
   length (log_lines (sort_worker (\<lambda>i. False) denied_env [] [''d''] False False [] True)) = 8 \<and>
   iter_files unreadable_env [''d''] False = Inr demo_files \<and>
   (\<exists>ds. result_dups (duplicate_scan_worker (\<lambda>i. False) unreadable_env [''d''] False False True 10)
            = Some ds \<and>
      log_lines (duplicate_scan_worker (\<lambda>i. False) unreadable_env [''d''] False False True 10) =
        [''Listing files...'',
         ''Scanning '' @ str_nat (length (scanned_files unreadable_env demo_files False)) @
           '' files for duplicates...'',
         ''Found '' @ str_nat (length ds) @ '' duplicate groups.''] \<and>
      (\<forall>x. Raise x \<notin> set (duplicate_scan_worker (\<lambda>i. False) unreadable_env [''d''] False False
         True 10))) \<and>
   progress_values (duplicate_scan_worker (\<lambda>i. False) unreadable_env [''d''] False False True 10) =
     [1 / 2, 1] \<and>
   sort_target (demo_env\<lparr>is_dir := (\<lambda>p. True)\<rparr>) [''d''] [] True [''d'', ''sub''] =
     Inl ''unsupported operand type(s) for /'' \<and>
   sort_item (demo_env\<lparr>is_dir := (\<lambda>p. True)\<rparr>) [] [''d''] False [] True [''d'', ''sub''] =
     ([Log ''Error sub: unsupported operand type(s) for /''], []) \<and>
   sort_loop (\<lambda>i. False) denied_env [''d''] False [] True 5 2 [[''d'', ''c.txt'']] [] =
     [Log ''Error c.txt: Permission denied'', Progress (3 / 5)]"
proof -
  let ?c = "[''d'', ''c.txt'']"
  let ?dst = "[''d'', ''Documents'', ''c.txt'']"
  have t: "sort_target denied_env [''d''] [] True ?c = Inr ?dst"
    by (simp add: sort_target_def denied_group path_join_def name_def)
  have cf: "copy2_fails denied_env ?c d = Some ''Permission denied''" for d
    by (simp add: denied_env_def)
  have mk: "mkdir_fails denied_env p = None" for p
    by (simp add: denied_env_def demo_env_def)
  have sc: "fst (safe_copy denied_env [] ?c ?dst) = Inl ''Permission denied''"
    by (simp add: safe_copy_def mkdir_parents_def mk cf Let_def)
  have sc': "fst (if False then safe_move denied_env [] ?c ?dst else safe_copy denied_env [] ?c ?dst)
      = Inl ''Permission denied''"
    using sc by simp
  have "fst (sort_item denied_env [] [''d''] False [] True ?c) =
      [Log (''Error '' @ name ?c @ '': '' @ ''Permission denied'')]"
    using item_failures_do_not_abort [where E = denied_env and base = "[''d'']"
        and groups_selected = "[]" and exif_by_date = True and f = ?c and dst = ?dst
        and move_mode = False and fs = "[]" and e = "''Permission denied''",
        THEN conjunct2, THEN conjunct1, THEN mp, OF conjI [OF t sc']] .
  then have it: "fst (sort_item denied_env [] [''d''] False [] True ?c) =
      [Log ''Error c.txt: Permission denied'']"
    by (simp add: name_def)
  have len: "length demo_files = 5" by (simp add: demo_files_def)
  have ns: "\<forall>i. \<not> (\<lambda>i::nat. False) i" by simp
  note w = item_failures_do_not_abort [where E = denied_env and base = "[''d'']"
        and include_sub = False and files = demo_files and fs = "[]" and stop = "\<lambda>i. False"
        and fsd = "rev (map (\<lambda>g. [''d'', g]) DEFAULT_FOLDERS)" and move_mode = False
        and groups_selected = "[]" and exif_by_date = True,
        THEN conjunct2, THEN conjunct2, THEN conjunct2, THEN conjunct1, THEN mp,
        OF conjI [OF denied_listing conjI [OF demo_files_ne conjI [OF denied_dirs ns]]]]
  have nr: "\<forall>x. Raise x \<notin> set (sort_worker (\<lambda>i. False) denied_env [] [''d''] False False [] True)"
    using w [THEN conjunct1] .
  have "progress_values (sort_worker (\<lambda>i. False) denied_env [] [''d''] False False [] True) =
      map (\<lambda>i. real (i + 1) / real (length demo_files)) [0..<length demo_files] @ [1]"
    using w [THEN conjunct2, THEN conjunct1] .
  then have pv: "progress_values (sort_worker (\<lambda>i. False) denied_env [] [''d''] False False [] True) =
     [1 / 5, 2 / 5, 3 / 5, 4 / 5, 1, 1]"
    by (simp only: len) (simp add: upt_rec)
  have "length (log_lines (sort_worker (\<lambda>i. False) denied_env [] [''d''] False False [] True)) =
      length demo_files + 3"
    using w [THEN conjunct2, THEN conjunct2] .
  then have lg: "length (log_lines (sort_worker (\<lambda>i. False) denied_env [] [''d''] False False [] True)) = 8"
    by (simp add: len)
  have ne: "scanned_files unreadable_env demo_files False \<noteq> []"
    by (simp add: scanned_files_def demo_files_ne)
  note dp = item_failures_do_not_abort [where E = unreadable_env and base = "[''d'']"
        and include_sub = False and listed = demo_files and images_only = False
        and stop = "\<lambda>i. False" and use_phash = True and perceptual_threshold = 10,
        THEN conjunct2, THEN conjunct2, THEN conjunct2, THEN conjunct2, THEN conjunct2,
        THEN conjunct2, THEN conjunct1, THEN mp, OF conjI [OF unreadable_listing ne]]
  have sf: "scanned_files unreadable_env demo_files False = demo_files"
    by (simp add: scanned_files_def)
  have sb: "length (size_buckets unreadable_env demo_files) = 2"
    by (simp add: size_buckets_def unreadable_size_map del: build_size_map.simps)
  have "progress_values (duplicate_scan_worker (\<lambda>i. False) unreadable_env [''d''] False False True 10) =
      map (\<lambda>i. real (i + 1) /
          real (length (size_buckets unreadable_env (scanned_files unreadable_env demo_files False))))
        [0..<length (size_buckets unreadable_env (scanned_files unreadable_env demo_files False))]"
    using item_failures_do_not_abort [where E = unreadable_env and base = "[''d'']"
        and include_sub = False and listed = demo_files and images_only = False
        and stop = "\<lambda>i. False" and use_phash = True and perceptual_threshold = 10,
        THEN conjunct2, THEN conjunct2, THEN conjunct2, THEN conjunct2, THEN conjunct2,
        THEN conjunct2, THEN conjunct2, THEN mp,
        OF conjI [OF unreadable_listing conjI [OF ne ns]]] .
  then have dpv: "progress_values (duplicate_scan_worker (\<lambda>i. False) unreadable_env [''d''] False
      False True 10) = [1 / 2, 1]"
    by (simp only: sf sb) (simp add: upt_rec)
  let ?D = "demo_env\<lparr>is_dir := (\<lambda>p. True)\<rparr>"
  have st: "sort_target ?D [''d''] [] True [''d'', ''sub''] = Inl ''unsupported operand type(s) for /''"
    by (simp add: sort_target_def detect_group_def)
  have "sort_item ?D [] [''d''] False [] True [''d'', ''sub''] =
      ([Log (''Error '' @ name [''d'', ''sub''] @ '': '' @ ''unsupported operand type(s) for /'')], [])"
    using item_failures_do_not_abort [where E = ?D and base = "[''d'']"
        and groups_selected = "[]" and exif_by_date = True and f = "[''d'', ''sub'']"
        and move_mode = False and fs = "[]" and e = "''unsupported operand type(s) for /''",
        THEN conjunct1, THEN mp, OF st] .
  then have si: "sort_item ?D [] [''d''] False [] True [''d'', ''sub''] =
      ([Log ''Error sub: unsupported operand type(s) for /''], [])"
    by (simp add: name_def)
  have nk: "\<not> (\<lambda>i::nat. False) 2" by simp
  have "sort_loop (\<lambda>i. False) denied_env [''d''] False [] True 5 2 (?c # []) [] =
      fst (sort_item denied_env [] [''d''] False [] True ?c) @
      Progress (real (2 + 1) / real 5) #
      sort_loop (\<lambda>i. False) denied_env [''d''] False [] True 5 (2 + 1) []
        (snd (sort_item denied_env [] [''d''] False [] True ?c))"
    using item_failures_do_not_abort [where E = denied_env and base = "[''d'']"
        and groups_selected = "[]" and exif_by_date = True and f = ?c and rest = "[]"
        and move_mode = False and fs = "[]" and stop = "\<lambda>i. False" and k = 2 and total' = 5,
        THEN conjunct2, THEN conjunct2, THEN conjunct1, THEN mp, OF nk] .
  then have sl: "sort_loop (\<lambda>i. False) denied_env [''d''] False [] True 5 2 [?c] [] =
      [Log ''Error c.txt: Permission denied'', Progress (3 / 5)]"
    by (simp only: it) simp
  show ?thesis
    by (intro conjI t sc it denied_listing len denied_dirs nr pv lg unreadable_listing dp dpv
        st si sl)
qed

lemma demo_group_c: "detect_group demo_env [''d'', ''c.txt''] = Some ''Documents''"
  by code_simp

text \<open>
  C6. Placing one encoding \<open>enc\<close> of an image \<open>p\<close> into the clusters \<open>cs\<close>, which stand in
  creation order: when some cluster matches, the first one that matches gets \<open>enc\<close>
  appended to its encodings and \<open>p\<close> added to its images, and every other cluster is left
  as it is; when none matches, a new cluster with the only encoding \<open>enc\<close> and the only
  image \<open>p\<close> is appended. A cluster matches when it has an encoding and the least of the
  distances from its encodings to \<open>enc\<close> is below the threshold of the code, the double
  that its literal \<^verbatim>\<open>0.6\<close> denotes. A run that is not cancelled
  places every encoding of every photo, photo by photo in the order of the listing.
  Consequently no cluster of the result is empty; every cluster that exists at some
  point is still there at the end, at the same position, with its encodings as a prefix
  and its images as a subset, so clusters are never merged or dropped; and one image
  with two faces far from each other lies in two clusters. The threshold is
  5404319552844595 / 2^53, below 6/10 by less than 2^-54; and the worker that is not
  cancelled makes its albums of the clusters so obtained from the photos of its listing.
\<close>

theorem greedy_first_match_clustering:
  "(\<forall>i<length cs. matches E (cs ! i) enc \<and> (\<forall>j<i. \<not> matches E (cs ! j) enc) \<longrightarrow>
      place_encoding E p enc cs = cs[i := extended (cs ! i) enc p]) \<and>
   ((\<forall>c\<in>set cs. \<not> matches E c enc) \<longrightarrow> place_encoding E p enc cs = cs @ [fresh enc p]) \<and>
   (matches E c enc \<longleftrightarrow>
      encodings c \<noteq> [] \<and> Min ((\<lambda>e. face_dist E e enc) ` set (encodings c)) < face_threshold) \<and>
   ((\<forall>i. \<not> stop i) \<longrightarrow> snd (face_loop stop E total' 0 photos []) = cluster_all E photos []) \<and>
   (\<forall>c\<in>set (cluster_all E photos []). inhabited c) \<and>
   extends cs (cluster_all E photos cs) \<and>
   (\<exists>(D :: real env) q. \<exists>c1\<in>set (cluster_all D [q] []). \<exists>c2\<in>set (cluster_all D [q] []).
      c1 \<noteq> c2 \<and> q \<in> images c1 \<and> q \<in> images c2) \<and>
   face_threshold = 5404319552844595 / 2 ^ 53 \<and>
   face_threshold < 6 / 10 \<and> 6 / 10 - face_threshold < 1 / 2 ^ 54 \<and>
   (FACE_AVAILABLE E \<and> iter_files E base include_sub = Inr listed \<and> photos_of E listed \<noteq> [] \<and>
    (\<forall>i. \<not> stop i) \<longrightarrow>
      face_grouping_worker stop E fs base include_sub =
        Log (''Analyzing faces in '' @ str_nat (length (photos_of E listed)) @ '' photos...'') #
        fst (face_loop stop E (length (photos_of E listed)) 0 (photos_of E listed) []) @
        albums_part E fs base (cluster_all E (photos_of E listed) []))"
proof -
  have a: "\<forall>i<length cs. matches E (cs ! i) enc \<and> (\<forall>j<i. \<not> matches E (cs ! j) enc) \<longrightarrow>
      place_encoding E p enc cs = cs[i := extended (cs ! i) enc p]"
    by (intro allI impI) (simp add: place_encoding_first)
  have b: "(\<forall>c\<in>set cs. \<not> matches E c enc) \<longrightarrow> place_encoding E p enc cs = cs @ [fresh enc p]"
    by (intro impI) (rule place_encoding_none)
  have c: "matches E c enc \<longleftrightarrow>
      encodings c \<noteq> [] \<and> Min ((\<lambda>e. face_dist E e enc) ` set (encodings c)) < face_threshold"
    by (rule matches_iff)
  have d: "(\<forall>i. \<not> stop i) \<longrightarrow> snd (face_loop stop E total' 0 photos []) = cluster_all E photos []"
    by (intro impI) (rule face_loop_clusters)
  have e: "\<forall>c\<in>set (cluster_all E photos []). inhabited c"
    by (rule inhabited_cluster_all) simp
  have f: "extends cs (cluster_all E photos cs)"
    by (rule extends_cluster_all)
  have g: "\<exists>(D :: real env) q. \<exists>c1\<in>set (cluster_all D [q] []). \<exists>c2\<in>set (cluster_all D [q] []).
      c1 \<noteq> c2 \<and> q \<in> images c1 \<and> q \<in> images c2"
    by (rule exI [of _ demo_env], rule exI [of _ "[''d'', ''b.jpg'']"])
      (simp add: demo_cluster_two fresh_def)
  have t1: "face_threshold = 5404319552844595 / 2 ^ 53"
    by (simp add: face_threshold_def)
  have t2: "face_threshold < 6 / 10"
    by (simp add: face_threshold_def)
  have t3: "6 / 10 - face_threshold < 1 / 2 ^ 54"
    by (simp add: face_threshold_def)
  have w: "FACE_AVAILABLE E \<and> iter_files E base include_sub = Inr listed \<and>
    photos_of E listed \<noteq> [] \<and> (\<forall>i. \<not> stop i) \<longrightarrow>
      face_grouping_worker stop E fs base include_sub =
        Log (''Analyzing faces in '' @ str_nat (length (photos_of E listed)) @ '' photos...'') #
        fst (face_loop stop E (length (photos_of E listed)) 0 (photos_of E listed) []) @
        albums_part E fs base (cluster_all E (photos_of E listed) [])"
  proof
    assume asm: "FACE_AVAILABLE E \<and> iter_files E base include_sub = Inr listed \<and>
      photos_of E listed \<noteq> [] \<and> (\<forall>i. \<not> stop i)"
    then have ns: "\<forall>i. \<not> stop i" by simp
    have u: "face_grouping_worker stop E fs base include_sub =
      Log (''Analyzing faces in '' @ str_nat (length (photos_of E listed)) @ '' photos...'') #
      fst (face_loop stop E (length (photos_of E listed)) 0 (photos_of E listed) []) @
      albums_part E fs base
        (snd (face_loop stop E (length (photos_of E listed)) 0 (photos_of E listed) []))"
      by (rule face_worker_unfold) (use asm in simp_all)
    show "face_grouping_worker stop E fs base include_sub =
        Log (''Analyzing faces in '' @ str_nat (length (photos_of E listed)) @ '' photos...'') #
        fst (face_loop stop E (length (photos_of E listed)) 0 (photos_of E listed) []) @
        albums_part E fs base (cluster_all E (photos_of E listed) [])"
      by (simp only: u face_loop_clusters [OF ns])
  qed
  show ?thesis by (intro conjI a b c d e f g t1 t2 t3 w)
qed

theorem greedy_first_match_clustering_witness:
  "matches demo_env (fresh 0 [''d'', ''a.JPG'']) (1 / 10) \<and>
   place_encoding demo_env [''d'', ''b.jpg''] (1 / 10) [fresh 0 [''d'', ''a.JPG'']] =
     [\<lparr>encodings = [0, 1 / 10], images = {[''d'', ''a.JPG''], [''d'', ''b.jpg'']}\<rparr>] \<and>
   \<not> matches demo_env (fresh 0 [''d'', ''a.JPG'']) 5 \<and>
   place_encoding demo_env [''d'', ''b.jpg''] 5 [fresh 0 [''d'', ''a.JPG'']] =
     [fresh 0 [''d'', ''a.JPG''], fresh 5 [''d'', ''b.jpg'']] \<and>
   snd (face_loop (\<lambda>i. False) demo_env 2 0 [[''d'', ''a.JPG''], [''d'', ''b.jpg'']] []) =
     cluster_all demo_env [[''d'', ''a.JPG''], [''d'', ''b.jpg'']] [] \<and>
   cluster_all demo_env [[''d'', ''a.JPG''], [''d'', ''b.jpg'']] [] =
     [\<lparr>encodings = [0, 1 / 10], images = {[''d'', ''a.JPG''], [''d'', ''b.jpg'']}\<rparr>,
      fresh 5 [''d'', ''b.jpg'']] \<and>
   face_dist demo_env 0 (5404319552844595 / 9007199254740992) < 6 / 10 \<and>
   \<not> matches demo_env (fresh 0 [''d'', ''a.JPG'']) (5404319552844595 / 9007199254740992) \<and>
   place_encoding demo_env [''d'', ''b.jpg''] (5404319552844595 / 9007199254740992)
       [fresh 0 [''d'', ''a.JPG'']] =
     [fresh 0 [''d'', ''a.JPG''], fresh (5404319552844595 / 9007199254740992) [''d'', ''b.jpg'']] \<and>
   FACE_AVAILABLE demo_env \<and> iter_files demo_env [''d''] False = Inr demo_files \<and>
   photos_of demo_env demo_files = [[''d'', ''a.JPG''], [''d'', ''b.jpg'']] \<and>
   face_grouping_worker (\<lambda>i. False) demo_env [] [''d''] False =
     Log ''Analyzing faces in 2 photos...'' #
     fst (face_loop (\<lambda>i. False) demo_env 2 0 [[''d'', ''a.JPG''], [''d'', ''b.jpg'']] []) @
     albums_part demo_env [] [''d'']
       [\<lparr>encodings = [0, 1 / 10], images = {[''d'', ''a.JPG''], [''d'', ''b.jpg'']}\<rparr>,
        fresh 5 [''d'', ''b.jpg'']]"
proof -
  let ?a = "[''d'', ''a.JPG'']"
  let ?b = "[''d'', ''b.jpg'']"
  let ?t = "5404319552844595 / 9007199254740992 :: real"
  note inst = greedy_first_match_clustering [of "[fresh 0 ?a]" demo_env _ ?b "fresh 0 ?a"
      "\<lambda>i. False" 2 "[?a, ?b]"]
  have m1: "matches demo_env (fresh 0 ?a) (1 / 10)"
    by (simp add: matches_def face_distance_def fresh_def demo_env_def face_threshold_def)
  have m2: "\<not> matches demo_env (fresh 0 ?a) 5"
    by (simp add: matches_def face_distance_def fresh_def demo_env_def face_threshold_def)
  have "place_encoding demo_env ?b (1 / 10) [fresh 0 ?a] =
      [fresh 0 ?a][0 := extended ([fresh 0 ?a] ! 0) (1 / 10) ?b]"
    using inst [where enc = "1 / 10", THEN conjunct1, rule_format, of 0] m1 by simp
  then have p1: "place_encoding demo_env ?b (1 / 10) [fresh 0 ?a] =
      [\<lparr>encodings = [0, 1 / 10], images = {?a, ?b}\<rparr>]"
    by (simp add: extended_def fresh_def insert_commute)
  have p2: "place_encoding demo_env ?b 5 [fresh 0 ?a] = [fresh 0 ?a, fresh 5 ?b]"
    using inst [where enc = 5, THEN conjunct2, THEN conjunct1] m2 by simp
  have ns: "\<forall>i. \<not> (\<lambda>i::nat. False) i" by simp
  have l: "snd (face_loop (\<lambda>i. False) demo_env 2 0 [?a, ?b] []) = cluster_all demo_env [?a, ?b] []"
    using inst [where enc = 5, THEN conjunct2, THEN conjunct2, THEN conjunct2, THEN conjunct1,
        THEN mp, OF ns] .
  have enc_a: "face_encodings demo_env ?a = [0]" by (simp add: demo_env_def)
  have enc_b: "face_encodings demo_env ?b = [1 / 10, 5]" by (simp add: demo_env_def)
  have p0: "place_encoding demo_env ?a 0 [] = [fresh 0 ?a]"
    by (simp add: place_encoding_def fresh_def)
  have m3: "\<not> matches demo_env \<lparr>encodings = [0, 1 / 10], images = {?a, ?b}\<rparr> 5"
    by (simp add: matches_def face_distance_def demo_env_def face_threshold_def)
  have p3: "place_encoding demo_env ?b 5 [\<lparr>encodings = [0, 1 / 10], images = {?a, ?b}\<rparr>] =
      [\<lparr>encodings = [0, 1 / 10], images = {?a, ?b}\<rparr>, fresh 5 ?b]"
    using m3 by (simp add: place_encoding_none)
  have all: "cluster_all demo_env [?a, ?b] [] =
      [\<lparr>encodings = [0, 1 / 10], images = {?a, ?b}\<rparr>, fresh 5 ?b]"
    by (simp add: cluster_all_def enc_a enc_b p0 p1 p3)
  have d6: "face_dist demo_env 0 ?t < 6 / 10"
    by (simp add: demo_env_def)
  have m4: "\<not> matches demo_env (fresh 0 ?a) ?t"
    by (simp add: matches_def face_distance_def fresh_def demo_env_def face_threshold_def)
  have p4: "place_encoding demo_env ?b ?t [fresh 0 ?a] = [fresh 0 ?a, fresh ?t ?b]"
    using inst [where enc = ?t, THEN conjunct2, THEN conjunct1] m4 by simp
  have av: "FACE_AVAILABLE demo_env" by (simp add: demo_env_def)
  have pne: "photos_of demo_env demo_files \<noteq> []" by (simp add: demo_photos)
  have lenp: "length [?a, ?b] = 2" by simp
  have "face_grouping_worker (\<lambda>i. False) demo_env [] [''d''] False =
      Log (''Analyzing faces in '' @ str_nat (length (photos_of demo_env demo_files)) @
           '' photos...'') #
      fst (face_loop (\<lambda>i. False) demo_env (length (photos_of demo_env demo_files)) 0
             (photos_of demo_env demo_files) []) @
      albums_part demo_env [] [''d''] (cluster_all demo_env (photos_of demo_env demo_files) [])"
    using greedy_first_match_clustering [where E = demo_env and base = "[''d'']"
        and include_sub = False and listed = demo_files and stop = "\<lambda>i. False" and fs = "[]",
        THEN conjunct2, THEN conjunct2, THEN conjunct2, THEN conjunct2, THEN conjunct2,
        THEN conjunct2, THEN conjunct2, THEN conjunct2, THEN conjunct2, THEN conjunct2,
        THEN mp, OF conjI [OF av conjI [OF demo_listing conjI [OF pne ns]]]] .
  then have wk: "face_grouping_worker (\<lambda>i. False) demo_env [] [''d''] False =
     Log ''Analyzing faces in 2 photos...'' #
     fst (face_loop (\<lambda>i. False) demo_env 2 0 [?a, ?b] []) @
     albums_part demo_env [] [''d'']
       [\<lparr>encodings = [0, 1 / 10], images = {?a, ?b}\<rparr>, fresh 5 ?b]"
    by (simp only: demo_photos all lenp str_nat_small append.simps)
  show ?thesis by (intro conjI m1 p1 m2 p2 l all d6 m4 p4 av demo_listing demo_photos wk)
qed

lemma unique_dest_fresh: "unique_dest fs dest \<notin> set fs"
  using unique_loop_free [of fs dest 1] by (simp add: unique_dest_def path_exists_def)

lemma transfer_state:
  assumes mk: "mkdir_fails E (parent dst) = None"
    and cp: "\<forall>d. copy2_fails E f d = None" and mv: "\<forall>d. move_fails E f d = None"
  shows "\<exists>d. parent d = parent dst \<and>
     fst (transfer E fs move_mode f dst) =
       [if move_mode then Move f d else Copy2 f d,
        Log ((if move_mode then ''Moved: '' else ''Copied: '') @ name f)] \<and>
     d \<notin> set fs \<and> d \<in> set (snd (transfer E fs move_mode f dst)) \<and>
     set fs - {f} \<subseteq> set (snd (transfer E fs move_mode f dst)) \<and>
     (f \<in> set fs \<longrightarrow> (f \<in> set (snd (transfer E fs move_mode f dst)) \<longleftrightarrow> \<not> move_mode))"
proof -
  define fs1 where "fs1 = map (\<lambda>k. take k (parent dst)) [1..<Suc (length (parent dst))] @ fs"
  define d where "d = unique_dest fs1 dst"
  have sub: "set fs \<subseteq> set fs1" by (auto simp: fs1_def)
  have fresh1: "d \<notin> set fs1" unfolding d_def by (rule unique_dest_fresh)
  have tr: "transfer E fs move_mode f dst =
      ([if move_mode then Move f d else Copy2 f d,
        Log ((if move_mode then ''Moved: '' else ''Copied: '') @ name f)],
       if move_mode then d # removeAll f fs1 else d # fs1)"
    using mk cp mv
    by (simp add: transfer_def safe_copy_def safe_move_def mkdir_parents_def Let_def fs1_def d_def)
  have par: "parent d = parent dst"
  proof -
    have "fst (safe_copy E fs f dst) = Inr d"
      using mk cp by (simp add: safe_copy_def mkdir_parents_def Let_def fs1_def d_def)
    then show ?thesis by (rule safe_copy_parent)
  qed
  have nf: "d \<notin> set fs" using fresh1 sub by blast
  have ne: "f \<in> set fs \<Longrightarrow> d \<noteq> f" using nf by blast
  show ?thesis
  proof (intro exI [of _ d] conjI)
    show "parent d = parent dst" by (rule par)
    show "fst (transfer E fs move_mode f dst) =
       [if move_mode then Move f d else Copy2 f d,
        Log ((if move_mode then ''Moved: '' else ''Copied: '') @ name f)]"
      by (simp add: tr)
    show "d \<notin> set fs" by (rule nf)
    show "d \<in> set (snd (transfer E fs move_mode f dst))" by (simp add: tr)
    show "set fs - {f} \<subseteq> set (snd (transfer E fs move_mode f dst))"
      using sub by (auto simp: tr)
    show "f \<in> set fs \<longrightarrow> (f \<in> set (snd (transfer E fs move_mode f dst)) \<longleftrightarrow> \<not> move_mode)"
      using sub ne by (auto simp: tr)
  qed
qed

lemma state_after_snoc:
  "state_after E base move_mode groups_selected exif_by_date (pre @ [f]) fs =
     snd (sort_item E (state_after E base move_mode groups_selected exif_by_date pre fs) base
            move_mode groups_selected exif_by_date f)"
  by (simp add: state_after_def)

lemma sort_loop_append:
  assumes ns: "\<forall>i. \<not> stop i"
  shows "sort_loop stop E base move_mode groups_selected exif_by_date total' k (pre @ f # post) fs =
     sort_loop stop E base move_mode groups_selected exif_by_date total' k pre fs @
     fst (sort_item E (state_after E base move_mode groups_selected exif_by_date pre fs) base
            move_mode groups_selected exif_by_date f) @
     Progress (real (k + length pre + 1) / real total') #
     sort_loop stop E base move_mode groups_selected exif_by_date total' (k + length pre + 1) post
       (state_after E base move_mode groups_selected exif_by_date (pre @ [f]) fs)"
proof (induction pre arbitrary: k fs)
  case Nil
  have nk: "\<not> stop k" using ns by simp
  show ?case
    using nk by (simp add: state_after_def case_prod_unfold)
next
  case (Cons g pre)
  have nk: "\<not> stop k" using ns by simp
  have st: "state_after E base move_mode groups_selected exif_by_date (g # xs) fs =
      state_after E base move_mode groups_selected exif_by_date xs
        (snd (sort_item E fs base move_mode groups_selected exif_by_date g))" for xs
    by (simp add: state_after_def)
  show ?case
    using Cons.IH [of "k + 1" "snd (sort_item E fs base move_mode groups_selected exif_by_date g)"]
    using nk by (simp add: st case_prod_unfold)
qed

text \<open>
  C10. In a sort with a non-empty list of enabled categories, a file whose detected
  category is not enabled is handled as a file of the category \<open>Others\<close>: its
  destination is \<open>base/Others/name\<close>, and it goes through the same copy or move as
  every other file. Whatever is copied or moved for it lands in the folder \<open>Others\<close>;
  when neither creating that folder nor the copy or move fails, the file is copied (or
  moved, in move mode) there and logged; and in a run that is not cancelled this
  happens for every such file of the listing. The copy or move is done and not only
  reported: the destination is a path that did not exist before and exists afterwards,
  no other path than the file is lost, and a file that existed is still in its place
  after a copy and is gone from it after a move. In a run that is not cancelled the
  loop reaches the file in the state left by the files before it, does this there, and
  goes on with the files after it from the state in which the destination exists.
\<close>

theorem disabled_category_sorted_into_others:
  assumes sel: "groups_selected \<noteq> []"
    and off: "detect_group E f \<notin> Some ` set groups_selected"
  shows
    "sort_item E fs base move_mode groups_selected exif_by_date f =
       transfer E fs move_mode f (path_join (path_join base ''Others'') (name f)) \<and>
     (\<forall>d. Copy2 f d \<in> set (fst (sort_item E fs base move_mode groups_selected exif_by_date f)) \<or>
          Move f d \<in> set (fst (sort_item E fs base move_mode groups_selected exif_by_date f))
            \<longrightarrow> parent d = path_join base ''Others'') \<and>
     (mkdir_fails E (path_join base ''Others'') = None \<and> (\<forall>d. copy2_fails E f d = None) \<and>
      (\<forall>d. move_fails E f d = None) \<longrightarrow>
        (\<exists>d. parent d = path_join base ''Others'' \<and>
           fst (sort_item E fs base move_mode groups_selected exif_by_date f) =
             [if move_mode then Move f d else Copy2 f d,
              Log ((if move_mode then ''Moved: '' else ''Copied: '') @ name f)])) \<and>
     (iter_files E base include_sub = Inr files \<and> f \<in> set files \<and> (\<forall>i. \<not> stop i) \<and>
      (\<forall>p. mkdir_fails E p = None) \<and> (\<forall>d. copy2_fails E f d = None) \<and>
      (\<forall>d. move_fails E f d = None) \<longrightarrow>
        (\<exists>d. parent d = path_join base ''Others'' \<and>
           (if move_mode then Move f d else Copy2 f d) \<in>
             set (sort_worker stop E fs0 base move_mode include_sub groups_selected exif_by_date))) \<and>
     (mkdir_fails E (path_join base ''Others'') = None \<and> (\<forall>d. copy2_fails E f d = None) \<and>
      (\<forall>d. move_fails E f d = None) \<longrightarrow>
        (\<exists>d. parent d = path_join base ''Others'' \<and>
           fst (sort_item E fs base move_mode groups_selected exif_by_date f) =
             [if move_mode then Move f d else Copy2 f d,
              Log ((if move_mode then ''Moved: '' else ''Copied: '') @ name f)] \<and>
           d \<notin> set fs \<and>
           d \<in> set (snd (sort_item E fs base move_mode groups_selected exif_by_date f)) \<and>
           set fs - {f} \<subseteq> set (snd (sort_item E fs base move_mode groups_selected exif_by_date f)) \<and>
           (f \<in> set fs \<longrightarrow>
              (f \<in> set (snd (sort_item E fs base move_mode groups_selected exif_by_date f))
                 \<longleftrightarrow> \<not> move_mode)))) \<and>
     (iter_files E base include_sub = Inr (pre @ f # post) \<and>
      ensure_dirs E fs0 base DEFAULT_FOLDERS = Inr fsd \<and> (\<forall>i. \<not> stop i) \<and>
      mkdir_fails E (path_join base ''Others'') = None \<and> (\<forall>d. copy2_fails E f d = None) \<and>
      (\<forall>d. move_fails E f d = None) \<longrightarrow>
        (\<exists>d. parent d = path_join base ''Others'' \<and>
           d \<notin> set (state_after E base move_mode groups_selected exif_by_date pre fsd) \<and>
           d \<in> set (state_after E base move_mode groups_selected exif_by_date (pre @ [f]) fsd) \<and>
           (f \<in> set (state_after E base move_mode groups_selected exif_by_date pre fsd) \<longrightarrow>
              (f \<in> set (state_after E base move_mode groups_selected exif_by_date (pre @ [f]) fsd)
                 \<longleftrightarrow> \<not> move_mode)) \<and>
           sort_worker stop E fs0 base move_mode include_sub groups_selected exif_by_date =
             Log (''Scanning '' @ str_path base @ ''...'') #
             Log (''Found '' @ str_nat (length (pre @ f # post)) @ '' files. Processing...'') #
             sort_loop stop E base move_mode groups_selected exif_by_date (length (pre @ f # post)) 0
               pre fsd @
             [if move_mode then Move f d else Copy2 f d,
              Log ((if move_mode then ''Moved: '' else ''Copied: '') @ name f),
              Progress (real (length pre + 1) / real (length (pre @ f # post)))] @
             sort_loop stop E base move_mode groups_selected exif_by_date (length (pre @ f # post))
               (length pre + 1) post
               (state_after E base move_mode groups_selected exif_by_date (pre @ [f]) fsd) @
             [Progress 1, Log ''Operation complete!'']))"
proof -
  let ?dst = "path_join (path_join base ''Others'') (name f)"
  have item: "sort_item E fs' base move_mode groups_selected exif_by_date f =
       transfer E fs' move_mode f ?dst" for fs'
    by (simp add: sort_item_def sort_target_others [OF sel off])
  have a: "\<forall>d. Copy2 f d \<in> set (fst (sort_item E fs base move_mode groups_selected exif_by_date f)) \<or>
          Move f d \<in> set (fst (sort_item E fs base move_mode groups_selected exif_by_date f))
            \<longrightarrow> parent d = path_join base ''Others''"
    unfolding item using transfer_parent [of f _ E fs move_mode ?dst] by simp
  have ok: "\<exists>d. parent d = path_join base ''Others'' \<and>
           fst (sort_item E fs' base move_mode groups_selected exif_by_date f) =
             [if move_mode then Move f d else Copy2 f d,
              Log ((if move_mode then ''Moved: '' else ''Copied: '') @ name f)]"
    if "mkdir_fails E (path_join base ''Others'') = None" and "\<forall>d. copy2_fails E f d = None"
      and "\<forall>d. move_fails E f d = None" for fs'
    unfolding item
    using transfer_succeeds [where dst = ?dst and E = E and f = f and fs = fs' and move_mode = move_mode]
      that by simp
  have b: "mkdir_fails E (path_join base ''Others'') = None \<and> (\<forall>d. copy2_fails E f d = None) \<and>
      (\<forall>d. move_fails E f d = None) \<longrightarrow>
        (\<exists>d. parent d = path_join base ''Others'' \<and>
           fst (sort_item E fs base move_mode groups_selected exif_by_date f) =
             [if move_mode then Move f d else Copy2 f d,
              Log ((if move_mode then ''Moved: '' else ''Copied: '') @ name f)])"
    using ok [of fs] by simp
  have c: "iter_files E base include_sub = Inr files \<and> f \<in> set files \<and> (\<forall>i. \<not> stop i) \<and>
      (\<forall>p. mkdir_fails E p = None) \<and> (\<forall>d. copy2_fails E f d = None) \<and>
      (\<forall>d. move_fails E f d = None) \<longrightarrow>
        (\<exists>d. parent d = path_join base ''Others'' \<and>
           (if move_mode then Move f d else Copy2 f d) \<in>
             set (sort_worker stop E fs0 base move_mode include_sub groups_selected exif_by_date))"
  proof
    assume asm: "iter_files E base include_sub = Inr files \<and> f \<in> set files \<and> (\<forall>i. \<not> stop i) \<and>
      (\<forall>p. mkdir_fails E p = None) \<and> (\<forall>d. copy2_fails E f d = None) \<and>
      (\<forall>d. move_fails E f d = None)"
    then have ne: "files \<noteq> []" by auto
    from asm obtain fs1 where fs1: "ensure_dirs E fs0 base DEFAULT_FOLDERS = Inr fs1"
      using ensure_dirs_ok by blast
    from asm have "\<forall>i. \<not> stop i" and "f \<in> set files" by simp_all
    from sort_loop_item [OF this] obtain fs' where
      sub: "set (fst (sort_item E fs' base move_mode groups_selected exif_by_date f)) \<subseteq>
        set (sort_loop stop E base move_mode groups_selected exif_by_date (length files) 0 files fs1)"
      by blast
    from ok [of fs'] asm obtain d where d: "parent d = path_join base ''Others''"
      and ev: "fst (sort_item E fs' base move_mode groups_selected exif_by_date f) =
             [if move_mode then Move f d else Copy2 f d,
              Log ((if move_mode then ''Moved: '' else ''Copied: '') @ name f)]"
      by auto
    have "(if move_mode then Move f d else Copy2 f d) \<in>
        set (sort_loop stop E base move_mode groups_selected exif_by_date (length files) 0 files fs1)"
      using sub unfolding ev by simp
    then have "(if move_mode then Move f d else Copy2 f d) \<in>
        set (sort_worker stop E fs0 base move_mode include_sub groups_selected exif_by_date)"
      using asm ne fs1 by (simp add: sort_worker_unfold)
    then show "\<exists>d. parent d = path_join base ''Others'' \<and>
           (if move_mode then Move f d else Copy2 f d) \<in>
             set (sort_worker stop E fs0 base move_mode include_sub groups_selected exif_by_date)"
      using d by blast
  qed
  have st: "\<exists>d. parent d = path_join base ''Others'' \<and>
           fst (sort_item E fs' base move_mode groups_selected exif_by_date f) =
             [if move_mode then Move f d else Copy2 f d,
              Log ((if move_mode then ''Moved: '' else ''Copied: '') @ name f)] \<and>
           d \<notin> set fs' \<and>
           d \<in> set (snd (sort_item E fs' base move_mode groups_selected exif_by_date f)) \<and>
           set fs' - {f} \<subseteq> set (snd (sort_item E fs' base move_mode groups_selected exif_by_date f)) \<and>
           (f \<in> set fs' \<longrightarrow>
              (f \<in> set (snd (sort_item E fs' base move_mode groups_selected exif_by_date f))
                 \<longleftrightarrow> \<not> move_mode))"
    if "mkdir_fails E (path_join base ''Others'') = None" and "\<forall>d. copy2_fails E f d = None"
      and "\<forall>d. move_fails E f d = None" for fs'
  proof -
    have pd: "parent ?dst = path_join base ''Others''"
      using butlast_snoc [of "base @ [''Others'']" "name f"]
      by (simp add: parent_def path_join_def)
    note ts = transfer_state [where dst = ?dst and E = E and f = f and fs = fs'
        and move_mode = move_mode, unfolded pd, OF that]
    show ?thesis unfolding item by (rule ts)
  qed
  have e: "mkdir_fails E (path_join base ''Others'') = None \<and> (\<forall>d. copy2_fails E f d = None) \<and>
      (\<forall>d. move_fails E f d = None) \<longrightarrow>
        (\<exists>d. parent d = path_join base ''Others'' \<and>
           fst (sort_item E fs base move_mode groups_selected exif_by_date f) =
             [if move_mode then Move f d else Copy2 f d,
              Log ((if move_mode then ''Moved: '' else ''Copied: '') @ name f)] \<and>
           d \<notin> set fs \<and>
           d \<in> set (snd (sort_item E fs base move_mode groups_selected exif_by_date f)) \<and>
           set fs - {f} \<subseteq> set (snd (sort_item E fs base move_mode groups_selected exif_by_date f)) \<and>
           (f \<in> set fs \<longrightarrow>
              (f \<in> set (snd (sort_item E fs base move_mode groups_selected exif_by_date f))
                 \<longleftrightarrow> \<not> move_mode)))"
    using st [of fs] by blast
  have f: "iter_files E base include_sub = Inr (pre @ f # post) \<and>
      ensure_dirs E fs0 base DEFAULT_FOLDERS = Inr fsd \<and> (\<forall>i. \<not> stop i) \<and>
      mkdir_fails E (path_join base ''Others'') = None \<and> (\<forall>d. copy2_fails E f d = None) \<and>
      (\<forall>d. move_fails E f d = None) \<longrightarrow>
        (\<exists>d. parent d = path_join base ''Others'' \<and>
           d \<notin> set (state_after E base move_mode groups_selected exif_by_date pre fsd) \<and>
           d \<in> set (state_after E base move_mode groups_selected exif_by_date (pre @ [f]) fsd) \<and>
           (f \<in> set (state_after E base move_mode groups_selected exif_by_date pre fsd) \<longrightarrow>
              (f \<in> set (state_after E base move_mode groups_selected exif_by_date (pre @ [f]) fsd)
                 \<longleftrightarrow> \<not> move_mode)) \<and>
           sort_worker stop E fs0 base move_mode include_sub groups_selected exif_by_date =
             Log (''Scanning '' @ str_path base @ ''...'') #
             Log (''Found '' @ str_nat (length (pre @ f # post)) @ '' files. Processing...'') #
             sort_loop stop E base move_mode groups_selected exif_by_date (length (pre @ f # post)) 0
               pre fsd @
             [if move_mode then Move f d else Copy2 f d,
              Log ((if move_mode then ''Moved: '' else ''Copied: '') @ name f),
              Progress (real (length pre + 1) / real (length (pre @ f # post)))] @
             sort_loop stop E base move_mode groups_selected exif_by_date (length (pre @ f # post))
               (length pre + 1) post
               (state_after E base move_mode groups_selected exif_by_date (pre @ [f]) fsd) @
             [Progress 1, Log ''Operation complete!''])"
  proof
    assume asm: "iter_files E base include_sub = Inr (pre @ f # post) \<and>
      ensure_dirs E fs0 base DEFAULT_FOLDERS = Inr fsd \<and> (\<forall>i. \<not> stop i) \<and>
      mkdir_fails E (path_join base ''Others'') = None \<and> (\<forall>d. copy2_fails E f d = None) \<and>
      (\<forall>d. move_fails E f d = None)"
    let ?S = "state_after E base move_mode groups_selected exif_by_date pre fsd"
    let ?S' = "state_after E base move_mode groups_selected exif_by_date (pre @ [f]) fsd"
    have ns: "\<forall>i. \<not> stop i" using asm by simp
    have S': "?S' = snd (sort_item E ?S base move_mode groups_selected exif_by_date f)"
      by (rule state_after_snoc)
    have h1: "mkdir_fails E (path_join base ''Others'') = None" using asm by simp
    have h2: "\<forall>d. copy2_fails E f d = None" using asm by simp
    have h3: "\<forall>d. move_fails E f d = None" using asm by simp
    from st [of ?S, OF h1 h2 h3] obtain d where par: "parent d = path_join base ''Others''"
      and ev: "fst (sort_item E ?S base move_mode groups_selected exif_by_date f) =
             [if move_mode then Move f d else Copy2 f d,
              Log ((if move_mode then ''Moved: '' else ''Copied: '') @ name f)]"
      and d1: "d \<notin> set ?S"
      and d2: "d \<in> set (snd (sort_item E ?S base move_mode groups_selected exif_by_date f))"
      and d3: "f \<in> set ?S \<longrightarrow>
              (f \<in> set (snd (sort_item E ?S base move_mode groups_selected exif_by_date f))
                 \<longleftrightarrow> \<not> move_mode)"
      by blast
    have ne: "pre @ f # post \<noteq> []" by simp
    have li: "iter_files E base include_sub = Inr (pre @ f # post)" using asm by simp
    have en: "ensure_dirs E fs0 base DEFAULT_FOLDERS = Inr fsd" using asm by simp
    have run: "sort_worker stop E fs0 base move_mode include_sub groups_selected exif_by_date =
             Log (''Scanning '' @ str_path base @ ''...'') #
             Log (''Found '' @ str_nat (length (pre @ f # post)) @ '' files. Processing...'') #
             sort_loop stop E base move_mode groups_selected exif_by_date (length (pre @ f # post)) 0
               pre fsd @
             [if move_mode then Move f d else Copy2 f d,
              Log ((if move_mode then ''Moved: '' else ''Copied: '') @ name f),
              Progress (real (length pre + 1) / real (length (pre @ f # post)))] @
             sort_loop stop E base move_mode groups_selected exif_by_date (length (pre @ f # post))
               (length pre + 1) post ?S' @
             [Progress 1, Log ''Operation complete!'']"
      unfolding sort_worker_unfold [OF li ne en]
        sort_loop_append [where stop = stop and k = 0, OF ns] ev
      by simp
    show "\<exists>d. parent d = path_join base ''Others'' \<and>
           d \<notin> set (state_after E base move_mode groups_selected exif_by_date pre fsd) \<and>
           d \<in> set (state_after E base move_mode groups_selected exif_by_date (pre @ [f]) fsd) \<and>
           (f \<in> set (state_after E base move_mode groups_selected exif_by_date pre fsd) \<longrightarrow>
              (f \<in> set (state_after E base move_mode groups_selected exif_by_date (pre @ [f]) fsd)
                 \<longleftrightarrow> \<not> move_mode)) \<and>
           sort_worker stop E fs0 base move_mode include_sub groups_selected exif_by_date =
             Log (''Scanning '' @ str_path base @ ''...'') #
             Log (''Found '' @ str_nat (length (pre @ f # post)) @ '' files. Processing...'') #
             sort_loop stop E base move_mode groups_selected exif_by_date (length (pre @ f # post)) 0
               pre fsd @
             [if move_mode then Move f d else Copy2 f d,
              Log ((if move_mode then ''Moved: '' else ''Copied: '') @ name f),
              Progress (real (length pre + 1) / real (length (pre @ f # post)))] @
             sort_loop stop E base move_mode groups_selected exif_by_date (length (pre @ f # post))
               (length pre + 1) post
               (state_after E base move_mode groups_selected exif_by_date (pre @ [f]) fsd) @
             [Progress 1, Log ''Operation complete!'']"
      using par d1 d2 d3 run unfolding S' by blast
  qed
  show ?thesis by (intro conjI item a b c e f)
qed

theorem disabled_category_sorted_into_others_witness:
  "[''Photos''] \<noteq> ([] :: string list) \<and>
   detect_group demo_env [''d'', ''c.txt''] = Some ''Documents'' \<and>
   detect_group demo_env [''d'', ''c.txt''] \<notin> Some ` set [''Photos''] \<and>
   sort_item demo_env [] [''d''] False [''Photos''] True [''d'', ''c.txt''] =
     transfer demo_env [] False [''d'', ''c.txt'']
       (path_join (path_join [''d''] ''Others'') (name [''d'', ''c.txt''])) \<and>
   path_join (path_join [''d''] ''Others'') (name [''d'', ''c.txt'']) = [''d'', ''Others'', ''c.txt''] \<and>
   (\<exists>d. parent d = path_join [''d''] ''Others'' \<and>
      fst (sort_item demo_env [] [''d''] False [''Photos''] True [''d'', ''c.txt'']) =
        [if False then Move [''d'', ''c.txt''] d else Copy2 [''d'', ''c.txt''] d,
         Log ((if False then ''Moved: '' else ''Copied: '') @ name [''d'', ''c.txt''])]) \<and>
   (\<exists>d. parent d = path_join [''d''] ''Others'' \<and>
      (if False then Move [''d'', ''c.txt''] d else Copy2 [''d'', ''c.txt''] d) \<in>
        set (sort_worker (\<lambda>i. False) demo_env [] [''d''] False False [''Photos''] True)) \<and>
   (\<exists>d. parent d = path_join [''d''] ''Others'' \<and>
      fst (sort_item demo_env [[''d'', ''c.txt'']] [''d''] False [''Photos''] True [''d'', ''c.txt'']) =
        [if False then Move [''d'', ''c.txt''] d else Copy2 [''d'', ''c.txt''] d,
         Log ((if False then ''Moved: '' else ''Copied: '') @ name [''d'', ''c.txt''])] \<and>
      d \<notin> set [[''d'', ''c.txt'']] \<and>
      d \<in> set (snd (sort_item demo_env [[''d'', ''c.txt'']] [''d''] False [''Photos''] True
        [''d'', ''c.txt''])) \<and>
      set [[''d'', ''c.txt'']] - {[''d'', ''c.txt'']} \<subseteq>
        set (snd (sort_item demo_env [[''d'', ''c.txt'']] [''d''] False [''Photos''] True
          [''d'', ''c.txt''])) \<and>
      ([''d'', ''c.txt''] \<in> set [[''d'', ''c.txt'']] \<longrightarrow>
         ([''d'', ''c.txt''] \<in> set (snd (sort_item demo_env [[''d'', ''c.txt'']] [''d''] False
            [''Photos''] True [''d'', ''c.txt''])) \<longleftrightarrow> \<not> False))) \<and>
   (\<exists>d. parent d = path_join [''d''] ''Others'' \<and>
      fst (sort_item demo_env [[''d'', ''c.txt'']] [''d''] True [''Photos''] True [''d'', ''c.txt'']) =
        [if True then Move [''d'', ''c.txt''] d else Copy2 [''d'', ''c.txt''] d,
         Log ((if True then ''Moved: '' else ''Copied: '') @ name [''d'', ''c.txt''])] \<and>
      d \<notin> set [[''d'', ''c.txt'']] \<and>
      d \<in> set (snd (sort_item demo_env [[''d'', ''c.txt'']] [''d''] True [''Photos''] True
        [''d'', ''c.txt''])) \<and>
      set [[''d'', ''c.txt'']] - {[''d'', ''c.txt'']} \<subseteq>
        set (snd (sort_item demo_env [[''d'', ''c.txt'']] [''d''] True [''Photos''] True
          [''d'', ''c.txt''])) \<and>
      ([''d'', ''c.txt''] \<in> set [[''d'', ''c.txt'']] \<longrightarrow>
         ([''d'', ''c.txt''] \<in> set (snd (sort_item demo_env [[''d'', ''c.txt'']] [''d''] True
            [''Photos''] True [''d'', ''c.txt''])) \<longleftrightarrow> \<not> True))) \<and>
   sort_item demo_env [[''d'', ''c.txt'']] [''d''] False [''Photos''] True [''d'', ''c.txt''] =
     ([Copy2 [''d'', ''c.txt''] [''d'', ''Others'', ''c.txt''], Log ''Copied: c.txt''],
      [[''d'', ''Others'', ''c.txt''], [''d''], [''d'', ''Others''], [''d'', ''c.txt'']]) \<and>
   sort_item demo_env [[''d'', ''c.txt'']] [''d''] True [''Photos''] True [''d'', ''c.txt''] =
     ([Move [''d'', ''c.txt''] [''d'', ''Others'', ''c.txt''], Log ''Moved: c.txt''],
      [[''d'', ''Others'', ''c.txt''], [''d''], [''d'', ''Others'']]) \<and>
   iter_files demo_env [''d''] False = Inr ([[''d'', ''a.JPG''], [''d'', ''b.jpg'']] @ [''d'', ''c.txt''] # [[''d'', ''clip.weird''], [''d'', ''notes.xyz'']]) \<and>
   ensure_dirs demo_env [] [''d''] DEFAULT_FOLDERS = Inr (rev (map (\<lambda>g. [''d'', g]) DEFAULT_FOLDERS)) \<and>
   (\<exists>d. parent d = path_join [''d''] ''Others'' \<and>
      d \<notin> set (state_after demo_env [''d''] True [''Photos''] True [[''d'', ''a.JPG''], [''d'', ''b.jpg'']] (rev (map (\<lambda>g. [''d'', g]) DEFAULT_FOLDERS))) \<and>
      d \<in> set (state_after demo_env [''d''] True [''Photos''] True ([[''d'', ''a.JPG''], [''d'', ''b.jpg'']] @ [[''d'', ''c.txt'']]) (rev (map (\<lambda>g. [''d'', g]) DEFAULT_FOLDERS))) \<and>
      ([''d'', ''c.txt''] \<in> set (state_after demo_env [''d''] True [''Photos''] True [[''d'', ''a.JPG''], [''d'', ''b.jpg'']] (rev (map (\<lambda>g. [''d'', g]) DEFAULT_FOLDERS))) \<longrightarrow>
         ([''d'', ''c.txt''] \<in> set (state_after demo_env [''d''] True [''Photos''] True ([[''d'', ''a.JPG''], [''d'', ''b.jpg'']] @ [[''d'', ''c.txt'']]) (rev (map (\<lambda>g. [''d'', g]) DEFAULT_FOLDERS))) \<longleftrightarrow> \<not> True)) \<and>
      sort_worker (\<lambda>i. False) demo_env [] [''d''] True False [''Photos''] True =
        Log (''Scanning '' @ str_path [''d''] @ ''...'') #
        Log (''Found '' @ str_nat (length ([[''d'', ''a.JPG''], [''d'', ''b.jpg'']] @ [''d'', ''c.txt''] # [[''d'', ''clip.weird''], [''d'', ''notes.xyz'']])) @ '' files. Processing...'') #
        sort_loop (\<lambda>i. False) demo_env [''d''] True [''Photos''] True (length ([[''d'', ''a.JPG''], [''d'', ''b.jpg'']] @ [''d'', ''c.txt''] # [[''d'', ''clip.weird''], [''d'', ''notes.xyz'']])) 0
          [[''d'', ''a.JPG''], [''d'', ''b.jpg'']] (rev (map (\<lambda>g. [''d'', g]) DEFAULT_FOLDERS)) @
        [if True then Move [''d'', ''c.txt''] d else Copy2 [''d'', ''c.txt''] d,
         Log ((if True then ''Moved: '' else ''Copied: '') @ name [''d'', ''c.txt'']),
         Progress (real (length [[''d'', ''a.JPG''], [''d'', ''b.jpg'']] + 1) / real (length ([[''d'', ''a.JPG''], [''d'', ''b.jpg'']] @ [''d'', ''c.txt''] # [[''d'', ''clip.weird''], [''d'', ''notes.xyz'']])))] @
        sort_loop (\<lambda>i. False) demo_env [''d''] True [''Photos''] True (length ([[''d'', ''a.JPG''], [''d'', ''b.jpg'']] @ [''d'', ''c.txt''] # [[''d'', ''clip.weird''], [''d'', ''notes.xyz'']]))
          (length [[''d'', ''a.JPG''], [''d'', ''b.jpg'']] + 1) [[''d'', ''clip.weird''], [''d'', ''notes.xyz'']]
          (state_after demo_env [''d''] True [''Photos''] True ([[''d'', ''a.JPG''], [''d'', ''b.jpg'']] @ [[''d'', ''c.txt'']]) (rev (map (\<lambda>g. [''d'', g]) DEFAULT_FOLDERS))) @
        [Progress 1, Log ''Operation complete!''])"
proof -
  let ?c = "[''d'', ''c.txt'']"
  have sel: "[''Photos''] \<noteq> ([] :: string list)" by simp
  have off: "detect_group demo_env ?c \<notin> Some ` set [''Photos'']"
    by (simp add: demo_group_c)
  have mk: "mkdir_fails demo_env p = None" for p by (simp add: demo_env_def)
  have cp: "\<forall>d. copy2_fails demo_env ?c d = None" by (simp add: demo_env_def)
  have mv: "\<forall>d. move_fails demo_env ?c d = None" by (simp add: demo_env_def)
  have mka: "\<forall>p. mkdir_fails demo_env p = None" by (simp add: demo_env_def)
  have ns: "\<forall>i. \<not> (\<lambda>i::nat. False) i" by simp
  have inl: "?c \<in> set demo_files" by (simp add: demo_files_def)
  note inst = disabled_category_sorted_into_others [OF sel off, where fs = "[]" and base = "[''d'']"
      and move_mode = False and exif_by_date = True and include_sub = False and files = demo_files
      and stop = "\<lambda>i. False" and ?fs0.0 = "[]"]
  have a: "sort_item demo_env [] [''d''] False [''Photos''] True ?c =
     transfer demo_env [] False ?c (path_join (path_join [''d''] ''Others'') (name ?c))"
    using inst [THEN conjunct1] .
  have p: "path_join (path_join [''d''] ''Others'') (name ?c) = [''d'', ''Others'', ''c.txt'']"
    by (simp add: path_join_def name_def)
  note b = inst [THEN conjunct2, THEN conjunct2, THEN conjunct1, THEN mp,
      OF conjI [OF mk conjI [OF cp mv]]]
  note c = inst [THEN conjunct2, THEN conjunct2, THEN conjunct2, THEN conjunct1, THEN mp,
      OF conjI [OF demo_listing conjI [OF inl conjI [OF ns conjI [OF mka conjI [OF cp mv]]]]]]
  have cin: "?c \<in> set [?c]" by simp
  note eC = disabled_category_sorted_into_others [OF sel off, where fs = "[?c]" and base = "[''d'']"
      and move_mode = False and exif_by_date = True,
      THEN conjunct2, THEN conjunct2, THEN conjunct2, THEN conjunct2, THEN conjunct1, THEN mp,
      OF conjI [OF mk conjI [OF cp mv]]]
  note eM = disabled_category_sorted_into_others [OF sel off, where fs = "[?c]" and base = "[''d'']"
      and move_mode = True and exif_by_date = True,
      THEN conjunct2, THEN conjunct2, THEN conjunct2, THEN conjunct2, THEN conjunct1, THEN mp,
      OF conjI [OF mk conjI [OF cp mv]]]
  have tgt: "sort_target demo_env [''d''] [''Photos''] True ?c = Inr [''d'', ''Others'', ''c.txt'']"
    by (simp add: sort_target_others [OF sel off] path_join_def name_def)
  have mkp: "mkdir_parents demo_env fs [''d'', ''Others''] = Inr ([[''d''], [''d'', ''Others'']] @ fs)" for fs
    by (simp add: mkdir_parents_def mk upt_rec)
  have ud: "unique_dest [[''d''], [''d'', ''Others''], ?c] [''d'', ''Others'', ''c.txt''] =
      [''d'', ''Others'', ''c.txt'']"
    by (simp add: unique_dest_def path_exists_def)
  have cpc: "copy2_fails demo_env s d = None" for s d by (simp add: demo_env_def)
  have mvc: "move_fails demo_env s d = None" for s d by (simp add: demo_env_def)
  have sC: "sort_item demo_env [?c] [''d''] False [''Photos''] True ?c =
     ([Copy2 ?c [''d'', ''Others'', ''c.txt''], Log ''Copied: c.txt''],
      [[''d'', ''Others'', ''c.txt''], [''d''], [''d'', ''Others''], ?c])"
    by (simp add: sort_item_def tgt transfer_def safe_copy_def parent_def mkp ud cpc Let_def)
      (simp add: name_def)
  have sM: "sort_item demo_env [?c] [''d''] True [''Photos''] True ?c =
     ([Move ?c [''d'', ''Others'', ''c.txt''], Log ''Moved: c.txt''],
      [[''d'', ''Others'', ''c.txt''], [''d''], [''d'', ''Others'']])"
    by (simp add: sort_item_def tgt transfer_def safe_move_def parent_def mkp ud mvc Let_def)
      (simp add: name_def)
  have li: "iter_files demo_env [''d''] False = Inr ([[''d'', ''a.JPG''], [''d'', ''b.jpg'']] @ ?c # [[''d'', ''clip.weird''], [''d'', ''notes.xyz'']])"
    by (simp add: demo_listing demo_files_def)
  note fW = disabled_category_sorted_into_others [OF sel off, where base = "[''d'']"
      and move_mode = True and exif_by_date = True and include_sub = False
      and pre = "[[''d'', ''a.JPG''], [''d'', ''b.jpg'']]" and post = "[[''d'', ''clip.weird''], [''d'', ''notes.xyz'']]"
      and stop = "\<lambda>i. False" and ?fs0.0 = "[]"
      and fsd = "rev (map (\<lambda>g. [''d'', g]) DEFAULT_FOLDERS)",
      THEN conjunct2, THEN conjunct2, THEN conjunct2, THEN conjunct2, THEN conjunct2, THEN mp,
      OF conjI [OF li conjI [OF demo_dirs conjI [OF ns conjI [OF mk conjI [OF cp mv]]]]]]
  show ?thesis
    by (intro conjI sel demo_group_c off a p b c eC eM sC sM li demo_dirs fW)
qed

end
